theory Spec2Isabelle
  imports Main "HOL-Library.Char_ord" "HOL-Library.AList"
begin

section \<open>Counters of the aggregation script (etl.js)\<close>

text \<open>
  A \<open>Counts\<close> object of etl.js holds a name and a growable array of event counts indexed by
  ply. The array holds non-negative integers only (it starts empty, grows by zeros and is
  incremented), so it is a list of naturals.
\<close>

record Counts =
  name :: string
  data :: "nat list"

definition new_Counts :: "string \<Rightarrow> Counts" where
  "new_Counts nm = \<lparr>name = nm, data = []\<rparr>"

text \<open>The loop \<^verbatim>\<open>while (n > this.data.length - 1) this.data.push(0)\<close>.\<close>

function push_zeros :: "nat \<Rightarrow> 'a::zero list \<Rightarrow> 'a list" where
  "push_zeros n d = (if int n > int (length d) - 1 then push_zeros n (d @ [0]) else d)"
  by pat_completeness auto
termination
  by (relation "measure (\<lambda>(n, d). Suc n - length d)") auto

declare push_zeros.simps [simp del]

text \<open>\<^verbatim>\<open>count(n)\<close>: make room, then \<^verbatim>\<open>this.data[n]++\<close>.\<close>

definition count :: "Counts \<Rightarrow> nat \<Rightarrow> Counts" where
  "count c n = (let d = push_zeros n (data c) in c\<lparr>data := d[n := d ! n + 1]\<rparr>)"

text \<open>\<^verbatim>\<open>get(n)\<close>; the argument is any integer.\<close>

definition get :: "Counts \<Rightarrow> int \<Rightarrow> nat" where
  "get c n = (if n \<le> 0 \<or> n \<ge> int (length (data c)) then 0 else data c ! nat n)"

definition lastNonzeroIndex :: "Counts \<Rightarrow> int" where
  "lastNonzeroIndex c = int (length (data c)) - 1"

section \<open>Counters of the front end (visualization.js)\<close>

text \<open>
  The front-end class of the same name copies an array of the loaded blob; its \<^verbatim>\<open>count\<close>
  adds an arbitrary amount, so the entries are integers.
\<close>

record Counts_v =
  name_v :: string
  data_v :: "int list"


definition count_v :: "Counts_v \<Rightarrow> nat \<Rightarrow> int \<Rightarrow> Counts_v" where
  "count_v c n tms =
     (let d = push_zeros n (data_v c) in c\<lparr>data_v := d[n := d ! n + tms]\<rparr>)"

definition get_v :: "Counts_v \<Rightarrow> int \<Rightarrow> int" where
  "get_v c n = (if n \<le> 0 \<or> n \<ge> int (length (data_v c)) then 0 else data_v c ! nat n)"

text \<open>\<^verbatim>\<open>range(lo, hi)\<close> and \<^verbatim>\<open>getDomain(low, high)\<close>.\<close>

function range :: "int \<Rightarrow> int \<Rightarrow> int list" where
  "range lo hi = (if lo < hi then lo # range (lo + 1) hi else [])"
  by pat_completeness auto
termination
  by (relation "measure (\<lambda>(lo, hi). nat (hi - lo))") auto

declare range.simps [simp del]

definition getDomain :: "Counts_v \<Rightarrow> int \<Rightarrow> int \<Rightarrow> (int \<times> int) list" where
  "getDomain c low high = map (\<lambda>x. (x, get_v c x)) (range low high)"

text \<open>
  The loop of the \<^verbatim>\<open>"aggregated"\<close> branch:
  \<^verbatim>\<open>for (let i = 0; i < this.data.length - 1; i += 2) newData.push(this.data[i] + this.data[i + 1])\<close>.
  Both reads are in range under the loop condition.
\<close>

function pair_sums :: "int list \<Rightarrow> nat \<Rightarrow> int list \<Rightarrow> int list" where
  "pair_sums d i newData =
     (if int i < int (length d) - 1
      then pair_sums d (i + 2) (newData @ [d ! i + d ! (i + 1)])
      else newData)"
  by pat_completeness auto
termination
  by (relation "measure (\<lambda>(d, i, newData). length d - i)") auto

declare pair_sums.simps [simp del]

text \<open>\<^verbatim>\<open>this.data.filter((v, i) => p(i))\<close>: the entries whose index satisfies \<open>p\<close>.\<close>

definition filter_index :: "(nat \<Rightarrow> bool) \<Rightarrow> 'a list \<Rightarrow> 'a list" where
  "filter_index p d = map fst (filter (\<lambda>(v, i). p i) (zip d [0..<length d]))"

definition aggregateBy :: "Counts_v \<Rightarrow> string \<Rightarrow> Counts_v" where
  "aggregateBy c aggregation =
     (if aggregation = ''aggregated'' then c\<lparr>data_v := pair_sums (data_v c) 0 []\<rparr>
      else if aggregation = ''white'' then c\<lparr>data_v := filter_index (\<lambda>i. i mod 2 = 0) (data_v c)\<rparr>
      else if aggregation = ''black'' then c\<lparr>data_v := filter_index (\<lambda>i. i mod 2 = 1) (data_v c)\<rparr>
      else c)"

section \<open>The aggregator (etl.js)\<close>

text \<open>
  Move tokens are strings of 8-bit characters (the data sets are ASCII); \<open>\<le>\<close> on characters
  compares character codes, as the comparison of one-character strings does in the source.
  A rating is the result of \<^verbatim>\<open>parseInt\<close>: an integer, or \<open>None\<close> for \<^verbatim>\<open>NaN\<close>.
\<close>

record Game =
  index :: "int option"
  date :: "int \<times> int \<times> int"
  result :: string
  welo :: "int option"
  belo :: "int option"
  len :: "int option"
  moves :: "string list"
  origin :: string

text \<open>The object \<^verbatim>\<open>PIECES\<close>, in the order of its keys.\<close>

definition PIECES :: "(char \<times> string) list" where
  "PIECES =
     [(CHR ''a'', ''pawn''), (CHR ''b'', ''pawn''), (CHR ''c'', ''pawn''), (CHR ''d'', ''pawn''),
      (CHR ''e'', ''pawn''), (CHR ''f'', ''pawn''), (CHR ''g'', ''pawn''), (CHR ''h'', ''pawn''),
      (CHR ''N'', ''knight''), (CHR ''R'', ''rook''), (CHR ''O'', ''castling''),
      (CHR ''B'', ''bishop''), (CHR ''K'', ''king''), (CHR ''Q'', ''queen'')]"

definition ELO_SUFFIXES :: "string list" where
  "ELO_SUFFIXES = ['''', ''_low'', ''_mid'', ''_hi'']"

text \<open>
  \<^verbatim>\<open>this.counts\<close> is a JavaScript \<^verbatim>\<open>Map\<close>: an association list in insertion order, where
  \<^verbatim>\<open>set\<close> replaces the value of a key in place or appends a new key (\<open>AList.update\<close>).
\<close>

type_synonym table = "(string \<times> Counts) list"

record DataAggregator =
  counts :: table
  totalGamesCounted :: nat

definition has :: "table \<Rightarrow> string \<Rightarrow> bool" where
  "has t k = (map_of t k \<noteq> None)"

definition addCounts :: "string \<Rightarrow> DataAggregator \<Rightarrow> DataAggregator" where
  "addCounts nm a = a\<lparr>counts := AList.update nm (new_Counts nm) (counts a)\<rparr>"

text \<open>The decimal numeral that string concatenation produces for a non-negative integer.\<close>

function decimal_string :: "nat \<Rightarrow> string" where
  "decimal_string n =
     (if n div 10 = 0 then [''0123456789'' ! n]
      else decimal_string (n div 10) @ [''0123456789'' ! (n mod 10)])"
  by pat_completeness auto
termination
  by (relation "measure (\<lambda>n. n)") auto

declare decimal_string.simps [simp del]

text \<open>\<^verbatim>\<open>getRowColName(r, c) = String.fromCharCode(97 + r) + (c + 1)\<close>.\<close>

definition getRowColName :: "nat \<Rightarrow> nat \<Rightarrow> string" where
  "getRowColName r c = char_of (97 + r) # decimal_string (c + 1)"

text \<open>The body of the \<^verbatim>\<open>forEach\<close> over \<^verbatim>\<open>ELO_SUFFIXES\<close> in the constructor.\<close>

definition add_suffix_counts :: "string \<Rightarrow> DataAggregator \<Rightarrow> DataAggregator" where
  "add_suffix_counts suffix a0 =
     (let a1 = addCounts (''total'' @ suffix) a0;
          a2 = fold (\<lambda>(k, v) a. if \<not> has (counts a) (v @ suffix)
                                  then addCounts (v @ suffix) a else a) PIECES a1;
          a3 = fold (\<lambda>r a. fold (\<lambda>c a. addCounts (''pos_'' @ getRowColName r c @ suffix) a)
                              [0..<8] a) [0..<8] a2
      in addCounts (''pos_castle'' @ suffix) a3)"

definition constructor :: DataAggregator where
  "constructor = fold add_suffix_counts ELO_SUFFIXES \<lparr>counts = [], totalGamesCounted = 0\<rparr>"

text \<open>
  \<^verbatim>\<open>getMoveRC(move)\<close>. The index \<^verbatim>\<open>last\<close> is an integer (it is \<open>-1\<close> for the empty token);
  \<open>last0\<close> is its value after the loop, \<open>last1\<close> after the promotion step.
  First the loop \<^verbatim>\<open>while (last > 0 && "+#?!".indexOf(move[last]) !== -1) last--\<close>.
\<close>

function skip_annotations :: "string \<Rightarrow> int \<Rightarrow> int" where
  "skip_annotations move k =
     (if k > 0 \<and> move ! nat k \<in> set ''+#?!''
      then skip_annotations move (k - 1) else k)"
  by pat_completeness auto
termination
  by (relation "measure (\<lambda>(move, k). nat k)") auto

declare skip_annotations.simps [simp del]

definition substr :: "string \<Rightarrow> nat \<Rightarrow> nat \<Rightarrow> string" where
  "substr s start n = take n (drop start s)"

text \<open>
  A comparison with a missing character (\<^verbatim>\<open>undefined\<close>) is false, so a \<^verbatim>\<open>rowcol\<close> shorter
  than two characters gives \<^verbatim>\<open>null\<close>.
\<close>

definition getMoveRC :: "string \<Rightarrow> string option" where
  "getMoveRC move =
     (let last0 = skip_annotations move (int (length move) - 1);
          last1 = (if last0 \<ge> 3 \<and> move ! nat (last0 - 1) = CHR ''=''
                   then last0 - 2 else last0)
      in if last1 - 1 < 0 then None
         else (let rowcol = substr move (nat (last1 - 1)) 2
               in case rowcol of
                    [f, r] \<Rightarrow>
                      if f \<ge> CHR ''a'' \<and> f \<le> CHR ''h'' \<and> r \<ge> CHR ''1'' \<and> r \<le> CHR ''8''
                      then Some rowcol else None
                  | _ \<Rightarrow> None))"

text \<open>\<^verbatim>\<open>eloSuffix(elo)\<close>: every comparison with \<^verbatim>\<open>NaN\<close> is false.\<close>

definition eloSuffix :: "int option \<Rightarrow> string" where
  "eloSuffix elo =
     (case elo of
        None \<Rightarrow> ''_hi''
      | Some e \<Rightarrow> if e < 1225 then ''_low'' else if e < 1875 then ''_mid'' else ''_hi'')"

text \<open>
  \<^verbatim>\<open>this.counts.get(k).count(i)\<close>: the lookup of a missing key gives \<^verbatim>\<open>undefined\<close>, and the
  method call on it throws a \<^verbatim>\<open>TypeError\<close>.
\<close>

datatype error = TypeError | Error string

definition and_then :: "error + 'a \<Rightarrow> ('a \<Rightarrow> error + 'b) \<Rightarrow> error + 'b" where
  "and_then r f = (case r of Inl e \<Rightarrow> Inl e | Inr x \<Rightarrow> f x)"

definition count_at :: "string \<Rightarrow> nat \<Rightarrow> table \<Rightarrow> error + table" where
  "count_at k i t =
     (case map_of t k of
        None \<Rightarrow> Inl TypeError
      | Some c \<Rightarrow> Inr (AList.update k (count c i) t))"

text \<open>
  The rating of the mover:
  \<^verbatim>\<open>game.moves[i][0] === 'W' ? game.welo : game.moves[i][0] === 'B' ? game.belo : NaN\<close>.
\<close>

definition mover_elo :: "Game \<Rightarrow> string \<Rightarrow> int option" where
  "mover_elo game move =
     (case move of
        [] \<Rightarrow> None
      | c # _ \<Rightarrow> if c = CHR ''W'' then welo game else if c = CHR ''B'' then belo game else None)"

text \<open>\<^verbatim>\<open>move.indexOf('.')\<close>: the first position of the character, or \<open>-1\<close>.\<close>

fun indexOf :: "string \<Rightarrow> char \<Rightarrow> int" where
  "indexOf [] c = -1"
| "indexOf (x # xs) c =
     (if x = c then 0 else (let r = indexOf xs c in if r = -1 then -1 else r + 1))"

text \<open>
  The category of the moved piece: the character after the first dot, looked up in
  \<^verbatim>\<open>PIECES\<close>; \<open>None\<close> when there is no dot, no character after it, or no such key.
\<close>

definition piece_category :: "string \<Rightarrow> string option" where
  "piece_category move =
     (let dotLocation = indexOf move (CHR ''.'')
      in if dotLocation \<noteq> -1
         then (if nat (dotLocation + 1) < length move
               then map_of PIECES (move ! nat (dotLocation + 1)) else None)
         else None)"

text \<open>The body of the loop of \<^verbatim>\<open>processGame\<close>, for the move at index \<open>i\<close>; \<open>dest\<close> is the
  variable \<^verbatim>\<open>where\<close> of the source.\<close>

definition processMove :: "Game \<Rightarrow> nat \<Rightarrow> table \<Rightarrow> error + table" where
  "processMove game i t0 =
     and_then (count_at ''total'' i t0) (\<lambda>t1.
       let elo = mover_elo game (moves game ! i);
           suffix = eloSuffix elo;
           dest = (case getMoveRC (moves game ! i) of None \<Rightarrow> ''castle'' | Some rc \<Rightarrow> rc)
       in and_then
            (if elo \<noteq> None
             then and_then (count_at (''total'' @ suffix) i t1) (\<lambda>t.
                  and_then (count_at (''pos_'' @ dest) i t)
                           (count_at (''pos_'' @ dest @ suffix) i))
             else Inr t1) (\<lambda>t2.
          case piece_category (moves game ! i) of
            None \<Rightarrow> Inr t2
          | Some prefix \<Rightarrow>
              and_then (count_at prefix i t2) (\<lambda>t3.
                if elo \<noteq> None then count_at (prefix @ suffix) i t3 else Inr t3)))"

text \<open>
  The loop \<^verbatim>\<open>for (let i = 0; i < game.moves.length; i++)\<close>, over the list of indices, and
  \<open>processGame\<close>. The progress message that is printed every 100000 games changes no state
  and is left out.
\<close>

fun for_moves :: "Game \<Rightarrow> nat list \<Rightarrow> table \<Rightarrow> error + table" where
  "for_moves game [] t = Inr t"
| "for_moves game (i # rest) t = and_then (processMove game i t) (for_moves game rest)"

definition processGame :: "Game \<Rightarrow> DataAggregator \<Rightarrow> error + DataAggregator" where
  "processGame game a =
     and_then (for_moves game [0..<length (moves game)] (counts a)) (\<lambda>t.
       Inr (a\<lparr>counts := t, totalGamesCounted := totalGamesCounted a + 1\<rparr>))"

text \<open>The reader's callback applied to each game of a source in turn.\<close>

fun processGames :: "Game list \<Rightarrow> DataAggregator \<Rightarrow> error + DataAggregator" where
  "processGames [] a = Inr a"
| "processGames (g # gs) a = and_then (processGame g a) (processGames gs)"

text \<open>The entry of a series at a ply, 0 beyond its end; the series of a named counter.\<close>

definition entry :: "'a::zero list \<Rightarrow> nat \<Rightarrow> 'a" where
  "entry d p = (if p < length d then d ! p else 0)"

definition series :: "table \<Rightarrow> string \<Rightarrow> nat \<Rightarrow> nat" where
  "series t k p = (case map_of t k of None \<Rightarrow> 0 | Some c \<Rightarrow> entry (data c) p)"

section \<open>Specification-level views of the aggregator\<close>

text \<open>
  The keys whose counters one move increments, in the order of the increments (read off
  \<open>processMove\<close>; \<open>processMove_count_all\<close> below proves that this is what it does), and the
  increments of a list of keys at one ply.
\<close>

definition move_keys :: "Game \<Rightarrow> string \<Rightarrow> string list" where
  "move_keys game move =
     (let elo = mover_elo game move;
          suffix = eloSuffix elo;
          dest = (case getMoveRC move of None \<Rightarrow> ''castle'' | Some rc \<Rightarrow> rc)
      in [''total''] @
         (if elo \<noteq> None then [''total'' @ suffix, ''pos_'' @ dest, ''pos_'' @ dest @ suffix]
          else []) @
         (case piece_category move of
            None \<Rightarrow> []
          | Some prefix \<Rightarrow> prefix # (if elo \<noteq> None then [prefix @ suffix] else [])))"

fun count_all :: "string list \<Rightarrow> nat \<Rightarrow> table \<Rightarrow> error + table" where
  "count_all [] i t = Inr t"
| "count_all (k # ks) i t = and_then (count_at k i t) (count_all ks i)"

text \<open>How often the move of a game at ply \<open>p\<close> (if it has one) increments the counter \<open>k\<close>.\<close>

definition contrib :: "string \<Rightarrow> nat \<Rightarrow> Game \<Rightarrow> nat" where
  "contrib k p game =
     (if p < length (moves game) then count_list (move_keys game (moves game ! p)) k else 0)"

text \<open>The piece categories, and the three rating tiers.\<close>

definition piece_categories :: "string list" where
  "piece_categories =
     [''pawn'', ''knight'', ''rook'', ''bishop'', ''queen'', ''king'', ''castling'']"

definition tiers :: "string list" where
  "tiers = [''_low'', ''_mid'', ''_hi'']"

text \<open>The names of the counters that \<open>processMove\<close> can ask for.\<close>

definition cells :: "string set" where
  "cells = {[f, r] | f r. CHR ''a'' \<le> f \<and> f \<le> CHR ''h'' \<and> CHR ''1'' \<le> r \<and> r \<le> CHR ''8''}"

definition known_keys :: "string set" where
  "known_keys =
     (\<Union>s \<in> set ELO_SUFFIXES.
        {''total'' @ s, ''pos_castle'' @ s} \<union> (\<lambda>v. v @ s) ` set piece_categories \<union>
        (\<lambda>rc. ''pos_'' @ rc @ s) ` cells)"

text \<open>
  The entry at ply \<open>p\<close> of the counter \<open>k\<close> after a fresh aggregator has processed the games
  \<open>gs\<close> in order; \<open>None\<close> if the processing throws.
\<close>

definition counter_after :: "Game list \<Rightarrow> string \<Rightarrow> nat \<Rightarrow> nat option" where
  "counter_after gs k p =
     (case processGames gs constructor of
        Inl e \<Rightarrow> None
      | Inr a \<Rightarrow> Some (series (counts a) k p))"

text \<open>A game record with the given ratings and move tokens, for concrete inputs.\<close>

definition example_game :: "int option \<Rightarrow> int option \<Rightarrow> string list \<Rightarrow> Game" where
  "example_game w b ms =
     \<lparr>index = Some 0, date = (2021, 9, 1), result = ''1-0'', welo = w, belo = b,
      len = Some (int (length ms)), moves = ms, origin = ''pro''\<rparr>"

section \<open>Regular expressions of the source\<close>

text \<open>
  The regular expressions of the source use literals, character classes, a greedy \<open>+\<close> or a
  fixed repetition of a character class, alternatives of literals, capturing groups that
  are not nested, and the anchors. They are matched as JavaScript does: alternatives in
  order, greedy repetitions longest first, with backtracking. Of the white-space class only
  the characters below code 256 are modelled (TAB, LF, VT, FF, CR, space, NBSP).
\<close>

datatype cclass = Digit | Space | NonSpace | Range char char | NotChar char

fun cclass_match :: "cclass \<Rightarrow> char \<Rightarrow> bool" where
  "cclass_match Digit c = (CHR ''0'' \<le> c \<and> c \<le> CHR ''9'')"
| "cclass_match Space c = ((of_char c :: nat) \<in> {9, 10, 11, 12, 13, 32, 160})"
| "cclass_match NonSpace c = ((of_char c :: nat) \<notin> {9, 10, 11, 12, 13, 32, 160})"
| "cclass_match (Range a b) c = (a \<le> c \<and> c \<le> b)"
| "cclass_match (NotChar a) c = (c \<noteq> a)"

datatype regex =
  Lit string | Cls cclass | Plus cclass | Times nat cclass | Alt regex regex | Group regex
| Bol | Eol

text \<open>
  The ways in which one item can match at the front of the remaining input \<open>s\<close>: the text
  it consumes and the input left, in the order in which backtracking tries them. The flag
  says whether \<open>s\<close> is the whole input (for the anchor \<^verbatim>\<open>^\<close>).
\<close>

fun ends :: "regex \<Rightarrow> bool \<Rightarrow> string \<Rightarrow> (string \<times> string) list" where
  "ends (Lit l) b s = (if take (length l) s = l then [(l, drop (length l) s)] else [])"
| "ends (Cls c) b s =
     (case s of [] \<Rightarrow> [] | x # xs \<Rightarrow> if cclass_match c x then [([x], xs)] else [])"
| "ends (Plus c) b s =
     map (\<lambda>k. (take k s, drop k s)) (rev [1..<Suc (length (takeWhile (cclass_match c) s))])"
| "ends (Times k c) b s =
     (if k \<le> length (takeWhile (cclass_match c) (take k s)) then [(take k s, drop k s)] else [])"
| "ends (Alt r1 r2) b s = ends r1 b s @ ends r2 b s"
| "ends (Group r) b s = ends r b s"
| "ends Bol b s = (if b then [([], s)] else [])"
| "ends Eol b s = (if s = [] then [([], s)] else [])"

fun is_group :: "regex \<Rightarrow> bool" where
  "is_group (Group r) = True"
| "is_group r = False"

text \<open>
  All matches of a sequence of items, in backtracking order: the text matched so far
  (\<open>whole\<close>), the input left and the captured groups in the order of the groups. The flag
  says whether the match started at the beginning of the input.
\<close>

fun runs :: "regex list \<Rightarrow> bool \<Rightarrow> string \<Rightarrow> string \<Rightarrow> string list
               \<Rightarrow> (string \<times> string \<times> string list) list" where
  "runs [] b whole s caps = [(whole, s, caps)]"
| "runs (r # rs) b whole s caps =
     concat (map (\<lambda>(w, s'). runs rs b (whole @ w) s' (if is_group r then caps @ [w] else caps))
                 (ends r (b \<and> whole = []) s))"

text \<open>
  The match that starts at the front of \<open>s\<close>, if there is one: the match array (the matched
  text, then the groups).
\<close>

definition match_at :: "regex list \<Rightarrow> bool \<Rightarrow> string \<Rightarrow> string list option" where
  "match_at pat b s =
     (case runs pat b [] s [] of
        [] \<Rightarrow> None
      | (whole, s', caps) # _ \<Rightarrow> Some (whole # caps))"

text \<open>
  \<^verbatim>\<open>pattern.exec(s)\<close> for a pattern without the \<^verbatim>\<open>g\<close> flag: the leftmost match, tried at every
  start position up to the end of the input.
\<close>

fun exec_from :: "regex list \<Rightarrow> bool \<Rightarrow> string \<Rightarrow> string list option" where
  "exec_from pat b [] = match_at pat b []"
| "exec_from pat b (c # cs) =
     (case match_at pat b (c # cs) of
        Some m \<Rightarrow> Some m
      | None \<Rightarrow> exec_from pat False cs)"

definition exec :: "regex list \<Rightarrow> string \<Rightarrow> string list option" where
  "exec pat s = exec_from pat True s"

text \<open>
  \<^verbatim>\<open>s.matchAll(pattern)\<close> for a pattern with the \<^verbatim>\<open>g\<close> flag: the search resumes at the end of
  the previous match, one position further after an empty match.
\<close>

function matchAll_from :: "regex list \<Rightarrow> bool \<Rightarrow> string \<Rightarrow> string list list" where
  "matchAll_from pat b [] = (case match_at pat b [] of None \<Rightarrow> [] | Some m \<Rightarrow> [m])"
| "matchAll_from pat b (c # cs) =
     (case match_at pat b (c # cs) of
        None \<Rightarrow> matchAll_from pat False cs
      | Some m \<Rightarrow> m # matchAll_from pat False (drop (max 1 (length (m ! 0))) (c # cs)))"
  by pat_completeness auto
termination
  by (relation "measure (\<lambda>(pat, b, s). length s)") auto

definition matchAll :: "string \<Rightarrow> regex list \<Rightarrow> string list list" where
  "matchAll s pat = matchAll_from pat True s"

section \<open>The reader of the rated format (etl.js)\<close>

text \<open>\<^verbatim>\<open>MOVE_PATTERN = /([0-9]+)(\.|\.\.\.)\s+(\S+) \{/g\<close>\<close>

definition MOVE_PATTERN :: "regex list" where
  "MOVE_PATTERN =
     [Group (Plus Digit), Group (Alt (Lit ''.'') (Lit ''...'')), Plus Space,
      Group (Plus NonSpace), Lit '' {'']"

text \<open>
  \<^verbatim>\<open>parseInt\<close> of a string that starts with a decimal digit (the value of its leading digits)
  or holds no number at all (\<^verbatim>\<open>NaN\<close>); the source applies it to captured digit groups only.
\<close>

definition parseInt :: "string \<Rightarrow> int option" where
  "parseInt s =
     (let ds = takeWhile (cclass_match Digit) s
      in if ds = [] then None
         else Some (foldl (\<lambda>n c. 10 * n + (int (of_char c) - 48)) 0 ds))"

text \<open>
  The text that a template string or a concatenation produces for a number (integers are
  unbounded here; move numbers are small).
\<close>

definition number_string :: "int option \<Rightarrow> string" where
  "number_string n =
     (case n of
        None \<Rightarrow> ''NaN''
      | Some k \<Rightarrow> if k < 0 then CHR ''-'' # decimal_string (nat (- k)) else decimal_string (nat k))"

definition lichessMovesParse :: "string \<Rightarrow> string list" where
  "lichessMovesParse line =
     map (\<lambda>m. let moveIdx = parseInt (m ! 1);
                   player = (if m ! 2 = ''.'' then ''W'' else ''B'');
                   move = m ! 3
               in player @ number_string moveIdx @ ''.'' @ move)
         (matchAll line MOVE_PATTERN)"

text \<open>
  The patterns of the metadata lines and of the first move; the character \<open>CHR 0x22\<close> is the
  double quote.
  \<^verbatim>\<open>DATE_PATTERN = /^\[Date\s+\"([0-9]{4})\.([0-9]{2})\.([0-9]{2})\"\]$/\<close>,
  \<^verbatim>\<open>ELO_PATTERN = /^\[(White|Black)Elo\s+\"([0-9]+)\"\]$/\<close>,
  \<^verbatim>\<open>RESULT_PATTERN = /^\[Result\s+\"([^"]+)\"\]$/\<close>,
  \<^verbatim>\<open>MOVE_1_PATTERN = /^([0-9]+)\.\s+(\S+)/\<close>.
\<close>

definition DATE_PATTERN :: "regex list" where
  "DATE_PATTERN =
     [Bol, Lit ''[Date'', Plus Space, Lit [CHR 0x22], Group (Times 4 Digit), Lit ''.'',
      Group (Times 2 Digit), Lit ''.'', Group (Times 2 Digit), Lit [CHR 0x22, CHR '']''], Eol]"

definition ELO_PATTERN :: "regex list" where
  "ELO_PATTERN =
     [Bol, Lit ''['', Group (Alt (Lit ''White'') (Lit ''Black'')), Lit ''Elo'', Plus Space,
      Lit [CHR 0x22], Group (Plus Digit), Lit [CHR 0x22, CHR '']''], Eol]"

definition RESULT_PATTERN :: "regex list" where
  "RESULT_PATTERN =
     [Bol, Lit ''[Result'', Plus Space, Lit [CHR 0x22], Group (Plus (NotChar (CHR 0x22))),
      Lit [CHR 0x22, CHR '']''], Eol]"

definition MOVE_1_PATTERN :: "regex list" where
  "MOVE_1_PATTERN = [Bol, Group (Plus Digit), Lit ''.'', Plus Space, Group (Plus NonSpace)]"

text \<open>\<^verbatim>\<open>line.trim()\<close>\<close>

definition trim :: "string \<Rightarrow> string" where
  "trim s = rev (dropWhile (cclass_match Space) (rev (dropWhile (cclass_match Space) s)))"

text \<open>
  The state of the reader: the variables of \<open>forEachLichessGame\<close>, the games handed to the
  callback so far, and whether \<^verbatim>\<open>lineReader.close()\<close> has been called.
\<close>

record LichessReader =
  r_index :: nat
  r_date :: "(int \<times> int \<times> int) option"
  r_result :: "string option"
  r_welo :: "int option"
  r_belo :: "int option"
  r_moves :: "string list"
  emitted :: "Game list"
  closed :: bool

definition the_int :: "int option \<Rightarrow> int" where
  "the_int n = (case n of None \<Rightarrow> 0 | Some k \<Rightarrow> k)"

text \<open>
  The handler of one line. The three numbers of a date are captured digit groups, so their
  \<^verbatim>\<open>parseInt\<close> is a number.
\<close>

definition on_line :: "nat \<Rightarrow> string \<Rightarrow> LichessReader \<Rightarrow> LichessReader" where
  "on_line maxQuantity line0 r0 =
     (let line = trim line0;
          r1 = (case exec DATE_PATTERN line of
                  None \<Rightarrow> r0
                | Some m \<Rightarrow> r0\<lparr>r_date := Some (the_int (parseInt (m ! 1)),
                                   the_int (parseInt (m ! 2)), the_int (parseInt (m ! 3)))\<rparr>);
          r2 = (case exec ELO_PATTERN line of
                  None \<Rightarrow> r1
                | Some m \<Rightarrow> if m ! 1 = ''White'' then r1\<lparr>r_welo := parseInt (m ! 2)\<rparr>
                            else r1\<lparr>r_belo := parseInt (m ! 2)\<rparr>);
          r3 = (case exec RESULT_PATTERN line of
                  None \<Rightarrow> r2
                | Some m \<Rightarrow> r2\<lparr>r_result := Some (m ! 1)\<rparr>)
      in case exec MOVE_1_PATTERN line of
           None \<Rightarrow> r3
         | Some m \<Rightarrow>
             (let r4 = r3\<lparr>r_moves := lichessMovesParse line\<rparr>;
                  r5 = (case (r_date r4, r_result r4) of
                          (Some d, Some res) \<Rightarrow>
                            if length (r_moves r4) \<ge> 2
                            then (let g = \<lparr>index = Some (int (r_index r4)), date = d, result = res,
                                           welo = r_welo r4, belo = r_belo r4,
                                           len = Some (int (length (r_moves r4))),
                                           moves = r_moves r4, origin = ''lichess''\<rparr>;
                                      r = r4\<lparr>emitted := emitted r4 @ [g],
                                             r_index := r_index r4 + 1\<rparr>
                                  in if r_index r \<ge> maxQuantity then r\<lparr>closed := True\<rparr> else r)
                            else r4
                        | _ \<Rightarrow> r4)
              in r5\<lparr>r_date := None, r_result := None, r_welo := None, r_belo := None,
                     r_moves := []\<rparr>))"

text \<open>
  The reader over a file. The stream hands the file over in chunks; \<^verbatim>\<open>readline\<close> emits the
  lines that a chunk completes one after the other, also after the handler has called
  \<^verbatim>\<open>close()\<close> in the middle of the chunk, and reads no further chunk once it is closed. So
  the input is the list of chunks, each as the list of its lines, and the result is the
  list of the games handed to the callback, in order.
\<close>

fun read_chunks :: "nat \<Rightarrow> string list list \<Rightarrow> LichessReader \<Rightarrow> LichessReader" where
  "read_chunks maxQuantity [] r = r"
| "read_chunks maxQuantity (chunk # chunks) r =
     (if closed r then r
      else read_chunks maxQuantity chunks (fold (on_line maxQuantity) chunk r))"

definition forEachLichessGame :: "string list list \<Rightarrow> nat \<Rightarrow> Game list" where
  "forEachLichessGame chunks maxQuantity =
     emitted (read_chunks maxQuantity chunks
        \<lparr>r_index = 0, r_date = None, r_result = None, r_welo = None, r_belo = None,
         r_moves = [], emitted = [], closed = False\<rparr>)"

text \<open>
  The metadata lines of a rated game with White rated 1200 and Black rated 2000, and the
  cap on the number of games that the script passes (\<^verbatim>\<open>QUANTITY\<close>).
\<close>

definition rated_metadata :: "string list" where
  "rated_metadata =
     [''[Date '' @ [CHR 0x22] @ ''2021.09.01'' @ [CHR 0x22] @ '']'',
      ''[Result '' @ [CHR 0x22] @ ''1-0'' @ [CHR 0x22] @ '']'',
      ''[WhiteElo '' @ [CHR 0x22] @ ''1200'' @ [CHR 0x22] @ '']'',
      ''[BlackElo '' @ [CHR 0x22] @ ''2000'' @ [CHR 0x22] @ '']'',
      '''']"

definition QUANTITY :: nat where
  "QUANTITY = 100000000"

section \<open>Derived series of the front end (visualization.js)\<close>









text \<open>\<^verbatim>\<open>rowColString(i) = String.fromCharCode(97 + Math.floor(i / 8), 49 + (i % 8))\<close>\<close>

definition rowColString :: "nat \<Rightarrow> string" where
  "rowColString i = [char_of (97 + i div 8), char_of (49 + i mod 8)]"











text \<open>
  The per-cell series without tier that the aggregation script writes for the single game
  \<^verbatim>\<open>1. e4 e5 2. d4\<close> between two rated players: one move to e4 (cell 35) at ply 0, one to e5
  (cell 36) at ply 1 and one to d4 (cell 27) at ply 2; every other series is empty.
\<close>

definition opening_series :: "nat \<Rightarrow> int list" where
  "opening_series i =
     (if i = 35 then [1] else if i = 36 then [0, 1] else if i = 27 then [0, 0, 1] else [])"


text \<open>
  The series that the counter \<open>k\<close> holds after a fresh aggregator has processed the games
  \<open>gs\<close>, which \<^verbatim>\<open>getJson\<close> writes to the blob as it is; and the game of the example above.
\<close>

definition stored_after :: "Game list \<Rightarrow> string \<Rightarrow> nat list option" where
  "stored_after gs k =
     (case processGames gs constructor of
        Inl e \<Rightarrow> None
      | Inr a \<Rightarrow> map_option data (map_of (counts a) k))"

definition opening_game :: Game where
  "opening_game = example_game (Some 1500) (Some 1500) [''W1.e4'', ''B1.e5'', ''W2.d4'']"

section \<open>Properties of the counters\<close>

lemma push_zeros_eq: "push_zeros n d = d @ replicate (Suc n - length d) 0"
proof (induction n d rule: push_zeros.induct)
  case (1 n d)
  show ?case
  proof (cases "int n > int (length d) - 1")
    case True
    then have "Suc n - length d = Suc (n - length d)" by linarith
    with True 1 show ?thesis
      by (subst push_zeros.simps) (simp add: replicate_app_Cons_same)
  next
    case False
    then show ?thesis by (subst push_zeros.simps) simp
  qed
qed


lemma upt_Suc_shift: "[0..<Suc m] = 0 # map Suc [0..<m]"
  by (simp add: upt_conv_Cons map_Suc_upt del: upt_Suc)

lemma pair_sums_eq:
  "pair_sums d i acc =
     acc @ map (\<lambda>j. d ! (i + 2 * j) + d ! (i + 2 * j + 1)) [0..<(length d - i) div 2]"
proof (induction d i acc rule: pair_sums.induct)
  case (1 d i acc)
  show ?case
  proof (cases "int i < int (length d) - 1")
    case True
    then have "length d - i = Suc (Suc (length d - (i + 2)))" by linarith
    then have k: "(length d - i) div 2 = Suc ((length d - (i + 2)) div 2)" by simp
    have "pair_sums d i acc = pair_sums d (i + 2) (acc @ [d ! i + d ! (i + 1)])"
      using True by (subst pair_sums.simps) simp
    also have "\<dots> = (acc @ [d ! i + d ! (i + 1)]) @
        map (\<lambda>j. d ! (i + 2 + 2 * j) + d ! (i + 2 + 2 * j + 1)) [0..<(length d - (i + 2)) div 2]"
      using 1 True by simp
    finally show ?thesis
      unfolding k upt_Suc_shift by (simp add: comp_def add.commute add.left_commute)
  next
    case False
    then have "(length d - i) div 2 = 0" by (simp; linarith)
    with False show ?thesis by (subst pair_sums.simps) simp
  qed
qed

lemma filter_zip_parity:
  "map fst (filter (\<lambda>(v, i). i mod 2 = r) (zip d [k..<k + length d])) =
     (if k mod 2 = r then map (\<lambda>j. d ! (2 * j)) [0..<(length d + 1) div 2]
      else map (\<lambda>j. d ! (2 * j + 1)) [0..<length d div 2])"
  if "r < 2" for r :: nat
proof (induction d arbitrary: k)
  case Nil
  then show ?case by simp
next
  case (Cons x xs)
  have z: "zip (x # xs) [k..<k + length (x # xs)] = (x, k) # zip xs [Suc k..<Suc k + length xs]"
    by (simp add: upt_conv_Cons del: upt_Suc)
  have flip: "(Suc k mod 2 = r) = (k mod 2 \<noteq> r)" using that by presburger
  show ?case
  proof (cases "k mod 2 = r")
    case True
    have "(length (x # xs) + 1) div 2 = Suc (length xs div 2)" by simp
    then show ?thesis
      unfolding z using True flip Cons.IH [of "Suc k"]
      by (simp add: upt_Suc_shift comp_def del: upt_Suc)
  next
    case False
    have "length (x # xs) div 2 = (length xs + 1) div 2" by simp
    then show ?thesis
      unfolding z using False flip Cons.IH [of "Suc k"]
      by (simp add: comp_def del: upt_Suc)
  qed
qed

lemma filter_index_even:
  "filter_index (\<lambda>i. i mod 2 = 0) d = map (\<lambda>j. d ! (2 * j)) [0..<(length d + 1) div 2]"
  using filter_zip_parity [of 0 d 0] by (simp add: filter_index_def)

lemma filter_index_odd:
  "filter_index (\<lambda>i. i mod 2 = 1) d = map (\<lambda>j. d ! (2 * j + 1)) [0..<length d div 2]"
  using filter_zip_parity [of 1 d 0] by (simp add: filter_index_def)

text \<open>
  C3. For a counter of either class and an integer \<open>n\<close> that is negative or at least the
  current length of the series, \<open>get\<close> returns 0. Both functions are total: no branch of
  the source can throw.
\<close>

theorem get_out_of_range_zero:
  "(n < 0 \<or> n \<ge> int (length (data c)) \<longrightarrow> get c n = 0) \<and>
   (m < 0 \<or> m \<ge> int (length (data_v v)) \<longrightarrow> get_v v m = 0)"
  by (simp add: get_def get_v_def)

theorem get_out_of_range_zero_witness:
  "((-1::int) < 0 \<or> -1 \<ge> int (length (data \<lparr>name = ''total'', data = [4, 5, 6]\<rparr>))) \<and>
   get \<lparr>name = ''total'', data = [4, 5, 6]\<rparr> (-1) = 0 \<and>
   ((3::int) < 0 \<or> 3 \<ge> int (length (data_v \<lparr>name_v = ''pawn'', data_v = [7, 8, 9]\<rparr>))) \<and>
   get_v \<lparr>name_v = ''pawn'', data_v = [7, 8, 9]\<rparr> 3 = 0"
  using get_out_of_range_zero [of "-1" "\<lparr>name = ''total'', data = [4, 5, 6]\<rparr>" 3
      "\<lparr>name_v = ''pawn'', data_v = [7, 8, 9]\<rparr>"]
  by simp

text \<open>
  C4. \<open>get 0\<close> is 0 for every counter of either class, also right after \<open>count 0\<close> has made
  the stored entry at index 0 positive: the guard of \<open>get\<close> is \<open>n \<le> 0\<close>, so the count at
  ply 0 cannot be read through \<open>get\<close>.
\<close>

theorem get_zero_hidden:
  "get c 0 = 0 \<and> get (count c 0) 0 = 0 \<and> 0 < length (data (count c 0)) \<and>
   0 < data (count c 0) ! 0 \<and>
   get_v v 0 = 0 \<and> get_v (count_v v 0 t) 0 = 0 \<and>
   data_v (count_v \<lparr>name_v = nm, data_v = []\<rparr> 0 1) = [1] \<and>
   get_v (count_v \<lparr>name_v = nm, data_v = []\<rparr> 0 1) 0 = 0"
  by (cases "data c") (simp_all add: get_def get_v_def count_def count_v_def push_zeros_eq)

text \<open>
  C8. For a series of even length \<open>L\<close>: mode "aggregated" gives a series of length \<open>L / 2\<close>
  whose \<open>i\<close>-th entry is the sum of the entries \<open>2i\<close> and \<open>2i + 1\<close>; mode "white" gives the
  even-indexed entries and mode "black" the odd-indexed entries, in order.
\<close>

theorem aggregateBy_even_length:
  assumes "even (length (data_v c))"
  shows "length (data_v (aggregateBy c ''aggregated'')) = length (data_v c) div 2 \<and>
         (\<forall>i < length (data_v c) div 2.
            data_v (aggregateBy c ''aggregated'') ! i
              = data_v c ! (2 * i) + data_v c ! (2 * i + 1)) \<and>
         length (data_v (aggregateBy c ''white'')) = length (data_v c) div 2 \<and>
         (\<forall>i < length (data_v c) div 2.
            data_v (aggregateBy c ''white'') ! i = data_v c ! (2 * i)) \<and>
         length (data_v (aggregateBy c ''black'')) = length (data_v c) div 2 \<and>
         (\<forall>i < length (data_v c) div 2.
            data_v (aggregateBy c ''black'') ! i = data_v c ! (2 * i + 1))"
proof -
  from assms have h: "(length (data_v c) + 1) div 2 = length (data_v c) div 2"
    by presburger
  have a: "data_v (aggregateBy c ''aggregated'') = pair_sums (data_v c) 0 []"
    by (simp add: aggregateBy_def)
  have w: "data_v (aggregateBy c ''white'') = filter_index (\<lambda>i. i mod 2 = 0) (data_v c)"
    by (simp add: aggregateBy_def)
  have b: "data_v (aggregateBy c ''black'') = filter_index (\<lambda>i. i mod 2 = 1) (data_v c)"
    by (simp add: aggregateBy_def)
  show ?thesis
    unfolding a w b pair_sums_eq filter_index_even filter_index_odd h by simp
qed

theorem aggregateBy_even_length_witness:
  "even (length (data_v \<lparr>name_v = ''king'', data_v = [1, 2, 3, 4]\<rparr>)) \<and>
   data_v (aggregateBy \<lparr>name_v = ''king'', data_v = [1, 2, 3, 4]\<rparr> ''aggregated'') ! 1 = 7 \<and>
   data_v (aggregateBy \<lparr>name_v = ''king'', data_v = [1, 2, 3, 4]\<rparr> ''white'') ! 1 = 3 \<and>
   data_v (aggregateBy \<lparr>name_v = ''king'', data_v = [1, 2, 3, 4]\<rparr> ''black'') ! 1 = 4"
  using aggregateBy_even_length [of "\<lparr>name_v = ''king'', data_v = [1, 2, 3, 4]\<rparr>"]
  by simp

section \<open>Properties of the aggregator\<close>

lemma entry_count: "entry (data (count c i)) p = entry (data c) p + (if p = i then 1 else 0)"
  by (auto simp: entry_def count_def Let_def push_zeros_eq nth_append nth_list_update)

lemma and_then_Inr [simp]: "and_then (Inr x) f = f x"
  by (simp add: and_then_def)

lemma and_then_Inl [simp]: "and_then (Inl e) f = Inl e"
  by (simp add: and_then_def)

lemma and_then_eq_Inr: "(and_then r f = Inr y) = (\<exists>x. r = Inr x \<and> f x = Inr y)"
  by (cases r) simp_all

lemma and_then_assoc: "and_then (and_then r f) g = and_then r (\<lambda>x. and_then (f x) g)"
  by (cases r) simp_all

lemma and_then_right: "and_then r Inr = r"
  by (cases r) simp_all

lemma and_then_cong: "r = r' \<Longrightarrow> (\<And>x. r' = Inr x \<Longrightarrow> f x = f' x) \<Longrightarrow> and_then r f = and_then r' f'"
  by (cases r') simp_all

lemma count_at_Inr:
  "(count_at k i t = Inr t') = (\<exists>c. map_of t k = Some c \<and> t' = AList.update k (count c i) t)"
  by (auto simp: count_at_def split: option.splits)

lemma series_count_at:
  assumes "count_at k i t = Inr t'"
  shows "series t' k' p = series t k' p + (if k' = k \<and> p = i then 1 else 0)"
  using assms by (auto simp: count_at_Inr series_def update_conv' entry_count)

lemma dom_count_at:
  assumes "count_at k i t = Inr t'"
  shows "dom (map_of t') = dom (map_of t)"
  using assms by (auto simp: count_at_Inr update_conv' split: if_splits)

lemma count_all_ok:
  "set ks \<subseteq> dom (map_of t) \<Longrightarrow> \<exists>t'. count_all ks i t = Inr t'"
proof (induction ks arbitrary: t)
  case Nil
  then show ?case by simp
next
  case (Cons k ks)
  then obtain c where c: "map_of t k = Some c" by auto
  then have 1: "count_at k i t = Inr (AList.update k (count c i) t)"
    by (simp add: count_at_def)
  have "set ks \<subseteq> dom (map_of (AList.update k (count c i) t))"
    using Cons.prems by (auto simp: update_conv')
  from Cons.IH [OF this] show ?case by (simp add: 1)
qed

lemma count_all_effect:
  "count_all ks i t = Inr t' \<Longrightarrow>
     dom (map_of t') = dom (map_of t) \<and>
     (\<forall>k p. series t' k p = series t k p + (if p = i then count_list ks k else 0))"
proof (induction ks arbitrary: t)
  case Nil
  then show ?case by simp
next
  case (Cons k ks)
  then obtain t1 where 1: "count_at k i t = Inr t1" and 2: "count_all ks i t1 = Inr t'"
    by (auto simp: and_then_eq_Inr)
  from Cons.IH [OF 2] dom_count_at [OF 1] series_count_at [OF 1]
  show ?case by auto
qed

lemma count_all_append:
  "count_all (xs @ ys) i t = and_then (count_all xs i t) (count_all ys i)"
  by (induction xs arbitrary: t) (auto simp: and_then_def split: sum.splits)

lemma processMove_count_all:
  "processMove game i t = count_all (move_keys game (moves game ! i)) i t"
  by (cases "mover_elo game (moves game ! i)"; cases "piece_category (moves game ! i)")
     (simp_all add: processMove_def move_keys_def Let_def and_then_assoc and_then_right cong: and_then_cong)

lemma for_moves_append:
  "for_moves game (xs @ ys) t = and_then (for_moves game xs t) (for_moves game ys)"
  by (induction xs arbitrary: t) (auto simp: and_then_def split: sum.splits)

lemma two_chars_case:
  "(case xs of [f, r] \<Rightarrow> if P f r then Some xs else None | _ \<Rightarrow> None) = Some rc \<Longrightarrow>
     \<exists>f r. rc = [f, r] \<and> P f r"
  by (auto split: list.splits if_splits)

lemma getMoveRC_cells:
  assumes "getMoveRC move = Some rc"
  shows "rc \<in> cells"
proof -
  from assms obtain k where
    "(case substr move k 2 of
        [f, r] \<Rightarrow> if f \<ge> CHR ''a'' \<and> f \<le> CHR ''h'' \<and> r \<ge> CHR ''1'' \<and> r \<le> CHR ''8''
                  then Some (substr move k 2) else None
      | _ \<Rightarrow> None) = Some rc"
    by (auto simp: getMoveRC_def Let_def split: if_splits)
  from two_chars_case [OF this] show ?thesis
    unfolding cells_def by blast
qed

lemma piece_category_in: "piece_category move = Some v \<Longrightarrow> v \<in> set piece_categories"
proof -
  assume "piece_category move = Some v"
  then obtain c where "map_of PIECES c = Some v"
    by (auto simp: piece_category_def Let_def split: if_splits)
  then have "(c, v) \<in> set PIECES" by (rule map_of_SomeD)
  then show ?thesis by (auto simp: PIECES_def piece_categories_def)
qed

lemma eloSuffix_in: "eloSuffix e \<in> set tiers"
  by (simp add: eloSuffix_def tiers_def split: option.splits)

lemma tiers_suffixes: "s \<in> set tiers \<Longrightarrow> s \<in> set ELO_SUFFIXES"
  by (auto simp: tiers_def ELO_SUFFIXES_def)

lemma known_keysI:
  assumes "s \<in> set ELO_SUFFIXES"
  shows "''total'' @ s \<in> known_keys" and "''pos_castle'' @ s \<in> known_keys"
    and "v \<in> set piece_categories \<Longrightarrow> v @ s \<in> known_keys"
    and "rc \<in> cells \<Longrightarrow> ''pos_'' @ rc @ s \<in> known_keys"
  using assms unfolding known_keys_def by blast+

lemma known_keys_plain:
  shows "''total'' \<in> known_keys" and "''pos_castle'' \<in> known_keys"
    and "v \<in> set piece_categories \<Longrightarrow> v \<in> known_keys"
    and "rc \<in> cells \<Longrightarrow> ''pos_'' @ rc \<in> known_keys"
  using known_keysI [of "''''"] by (simp_all add: ELO_SUFFIXES_def)

lemma move_keys_known: "set (move_keys game move) \<subseteq> known_keys"
proof -
  let ?s = "eloSuffix (mover_elo game move)"
  have s: "?s \<in> set ELO_SUFFIXES" by (simp add: eloSuffix_in tiers_suffixes)
  note k = known_keysI [OF s] known_keys_plain
  have "''pos_'' @ ''castle'' @ ?s = ''pos_castle'' @ ?s" by simp
  then have c: "''pos_'' @ ''castle'' @ ?s \<in> known_keys" using k(2) by metis
  have c': "''pos_'' @ ''castle'' \<in> known_keys" using k(6) by simp
  show ?thesis
    using k c c'
    by (auto simp: move_keys_def Let_def simp del: append.simps
        split: option.splits dest!: getMoveRC_cells piece_category_in piece_category_in [OF sym])
qed

lemma for_moves_effect:
  assumes "known_keys \<subseteq> dom (map_of t)" and "n \<le> length (moves game)"
  shows "\<exists>t'. for_moves game [0..<n] t = Inr t' \<and> dom (map_of t') = dom (map_of t) \<and>
           (\<forall>k p. series t' k p = series t k p + (if p < n then contrib k p game else 0))"
  using assms(2)
proof (induction n)
  case 0
  then show ?case by simp
next
  case (Suc n)
  then obtain t1 where 1: "for_moves game [0..<n] t = Inr t1"
    and d1: "dom (map_of t1) = dom (map_of t)"
    and s1: "\<And>k p. series t1 k p = series t k p + (if p < n then contrib k p game else 0)"
    by auto
  have "set (move_keys game (moves game ! n)) \<subseteq> dom (map_of t1)"
    using move_keys_known assms(1) d1 by blast
  from count_all_ok [OF this] obtain t2
    where 2: "count_all (move_keys game (moves game ! n)) n t1 = Inr t2" by blast
  from count_all_effect [OF 2] Suc.prems
  have "dom (map_of t2) = dom (map_of t1)"
    and "\<And>k p. series t2 k p = series t1 k p + (if p = n then contrib k p game else 0)"
    by (auto simp: contrib_def)
  with 1 2 d1 s1 show ?case
    by (auto simp: for_moves_append processMove_count_all)
qed

lemma processGame_effect:
  assumes "known_keys \<subseteq> dom (map_of (counts a))"
  shows "\<exists>a'. processGame game a = Inr a' \<and>
           dom (map_of (counts a')) = dom (map_of (counts a)) \<and>
           (\<forall>k p. series (counts a') k p = series (counts a) k p + contrib k p game)"
proof -
  from for_moves_effect [OF assms, of "length (moves game)" game]
  obtain t' where "for_moves game [0..<length (moves game)] (counts a) = Inr t'"
    and "dom (map_of t') = dom (map_of (counts a))"
    and "\<And>k p. series t' k p = series (counts a) k p + (if p < length (moves game) then contrib k p game else 0)"
    by auto
  then show ?thesis
    by (auto simp: processGame_def contrib_def)
qed

lemma processGames_effect:
  assumes "known_keys \<subseteq> dom (map_of (counts a))"
  shows "\<exists>a'. processGames gs a = Inr a' \<and>
           (\<forall>k p. series (counts a') k p
                    = series (counts a) k p + sum_list (map (contrib k p) gs))"
  using assms
proof (induction gs arbitrary: a)
  case Nil
  then show ?case by simp
next
  case (Cons g gs)
  from processGame_effect [OF Cons.prems, of g]
  obtain a1 where 1: "processGame g a = Inr a1"
    and d: "dom (map_of (counts a1)) = dom (map_of (counts a))"
    and s: "\<And>k p. series (counts a1) k p = series (counts a) k p + contrib k p g"
    by auto
  from Cons.prems d have "known_keys \<subseteq> dom (map_of (counts a1))" by simp
  from Cons.IH [OF this] obtain a' where "processGames gs a1 = Inr a'"
    and "\<And>k p. series (counts a') k p = series (counts a1) k p + sum_list (map (contrib k p) gs)"
    by auto
  with 1 s show ?case by (auto simp: add.assoc)
qed

lemma map_of_addCounts:
  "map_of (counts (addCounts k a)) = (map_of (counts a))(k \<mapsto> new_Counts k)"
  by (simp add: addCounts_def update_conv')

lemma fold_dom:
  assumes "\<And>x a. dom (map_of (counts (f x a))) = K x \<union> dom (map_of (counts a))"
  shows "dom (map_of (counts (fold f xs a))) = (\<Union>x \<in> set xs. K x) \<union> dom (map_of (counts a))"
  by (induction xs arbitrary: a) (auto simp: assms)

lemma fold_blank:
  assumes "\<And>x a. \<forall>k c. map_of (counts a) k = Some c \<longrightarrow> data c = [] \<Longrightarrow>
                 \<forall>k c. map_of (counts (f x a)) k = Some c \<longrightarrow> data c = []"
    and "\<forall>k c. map_of (counts a) k = Some c \<longrightarrow> data c = []"
  shows "\<forall>k c. map_of (counts (fold f xs a)) k = Some c \<longrightarrow> data c = []"
  using assms(2)
proof (induction xs arbitrary: a)
  case Nil
  then show ?case by simp
next
  case (Cons x xs)
  from Cons.IH [OF assms(1) [OF Cons.prems]] show ?case by simp
qed

lemma addCounts_blank:
  "\<forall>k c. map_of (counts a) k = Some c \<longrightarrow> data c = [] \<Longrightarrow>
   \<forall>k c. map_of (counts (addCounts nm a)) k = Some c \<longrightarrow> data c = []"
  by (auto simp: map_of_addCounts new_Counts_def)

lemma add_suffix_counts_dom:
  "dom (map_of (counts (add_suffix_counts s a))) =
     {''total'' @ s, ''pos_castle'' @ s} \<union> (\<lambda>(k, v). v @ s) ` set PIECES \<union>
     (\<Union>r \<in> {0..<8}. \<Union>c \<in> {0..<8}. {''pos_'' @ getRowColName r c @ s}) \<union>
     dom (map_of (counts a))"
proof -
  have p: "dom (map_of (counts (fold (\<lambda>(k, v) a. if \<not> has (counts a) (v @ s)
                                  then addCounts (v @ s) a else a) PIECES b))) =
           (\<Union>x \<in> set PIECES. {case x of (k, v) \<Rightarrow> v @ s}) \<union> dom (map_of (counts b))" for b
    by (rule fold_dom [where K = "\<lambda>x. {case x of (k, v) \<Rightarrow> v @ s}"])
       (auto simp: has_def map_of_addCounts split: if_splits)
  have c: "dom (map_of (counts (fold (\<lambda>c. addCounts (''pos_'' @ getRowColName r c @ s)) [0..<8] b))) =
           (\<Union>c \<in> set [0..<8]. {''pos_'' @ getRowColName r c @ s}) \<union> dom (map_of (counts b))" for r b
    by (rule fold_dom [where K = "\<lambda>c. {''pos_'' @ getRowColName r c @ s}"])
       (auto simp: map_of_addCounts)
  have r: "dom (map_of (counts (fold (\<lambda>r a. fold (\<lambda>c a. addCounts (''pos_'' @ getRowColName r c @ s) a)
                              [0..<8] a) [0..<8] b))) =
           (\<Union>r \<in> set [0..<8]. \<Union>c \<in> set [0..<8]. {''pos_'' @ getRowColName r c @ s})
             \<union> dom (map_of (counts b))" for b
    by (rule fold_dom [where K = "\<lambda>r. \<Union>c \<in> set [0..<8]. {''pos_'' @ getRowColName r c @ s}"])
       (rule c)
  show ?thesis
    unfolding add_suffix_counts_def Let_def
    by (simp only: map_of_addCounts dom_fun_upd option.simps if_False p r) auto
qed

lemma add_suffix_counts_blank:
  assumes "\<forall>k c. map_of (counts a) k = Some c \<longrightarrow> data c = []"
  shows "\<forall>k c. map_of (counts (add_suffix_counts s a)) k = Some c \<longrightarrow> data c = []"
  unfolding add_suffix_counts_def Let_def
  by (intro addCounts_blank fold_blank [where a = "addCounts (''total'' @ s) a"] fold_blank assms)
     (auto simp: map_of_addCounts new_Counts_def split: if_splits)

lemma decimal_string_digit: "n < 10 \<Longrightarrow> decimal_string n = [''0123456789'' ! n]"
  by (subst decimal_string.simps) simp

lemma digit_after: "c < 8 \<Longrightarrow> ''0123456789'' ! Suc c = char_of (49 + c)"
proof -
  assume "c < 8"
  then have "c \<in> {0, 1, 2, 3, 4, 5, 6, 7}" by auto
  then have "(of_char (''0123456789'' ! Suc c) :: nat) = 49 + c" by auto
  then show ?thesis by (metis char_of_char)
qed

lemma getRowColName_small:
  assumes "c < 8"
  shows "getRowColName r c = [char_of (97 + r), char_of (49 + c)]"
proof -
  have "decimal_string (c + 1) = [''0123456789'' ! Suc c]"
    using assms by (simp add: decimal_string_digit del: nth_Cons_Suc)
  then show ?thesis
    unfolding getRowColName_def digit_after [OF assms] by simp
qed

lemma char_between:
  assumes "lo \<le> (of_char x :: nat)" and "of_char x \<le> lo + 7"
  shows "\<exists>i < 8. x = char_of (lo + i)"
proof -
  define n :: nat where "n = of_char x"
  from assms have "n - lo < 8" "lo + (n - lo) = n" by (auto simp: n_def)
  moreover have "x = char_of n" by (simp add: n_def)
  ultimately show ?thesis by metis
qed

lemma cells_getRowColName:
  assumes "rc \<in> cells"
  shows "\<exists>r < 8. \<exists>c < 8. rc = getRowColName r c"
proof -
  from assms obtain f r where rc: "rc = [f, r]"
    and f: "CHR ''a'' \<le> f" "f \<le> CHR ''h''" and r: "CHR ''1'' \<le> r" "r \<le> CHR ''8''"
    by (auto simp: cells_def)
  have "97 \<le> (of_char f :: nat)" "of_char f \<le> (97 :: nat) + 7"
    using f by (simp_all add: less_eq_char_def)
  then have "\<exists>i < 8. f = char_of (97 + i :: nat)" by (rule char_between)
  moreover have "49 \<le> (of_char r :: nat)" "of_char r \<le> (49 :: nat) + 7"
    using r by (simp_all add: less_eq_char_def)
  then have "\<exists>j < 8. r = char_of (49 + j :: nat)" by (rule char_between)
  ultimately show ?thesis
    using rc by (metis getRowColName_small)
qed

lemma piece_categories_PIECES: "set piece_categories = snd ` set PIECES"
  by (auto simp: piece_categories_def PIECES_def)

lemma constructor_dom_step:
  "dom (map_of (counts (fold add_suffix_counts ss a))) =
     (\<Union>s \<in> set ss.
        {''total'' @ s, ''pos_castle'' @ s} \<union> (\<lambda>(k, v). v @ s) ` set PIECES \<union>
        (\<Union>r \<in> {0..<8}. \<Union>c \<in> {0..<8}. {''pos_'' @ getRowColName r c @ s}))
     \<union> dom (map_of (counts a))"
  by (rule fold_dom) (rule add_suffix_counts_dom)

lemma constructor_known_keys: "known_keys \<subseteq> dom (map_of (counts constructor))"
proof
  fix k assume "k \<in> known_keys"
  then obtain s where s: "s \<in> set ELO_SUFFIXES"
    and k: "k = ''total'' @ s \<or> k = ''pos_castle'' @ s \<or>
            (\<exists>v \<in> set piece_categories. k = v @ s) \<or> (\<exists>rc \<in> cells. k = ''pos_'' @ rc @ s)"
    unfolding known_keys_def by blast
  have "(\<exists>v \<in> set piece_categories. k = v @ s) \<Longrightarrow> k \<in> (\<lambda>(k, v). v @ s) ` set PIECES"
    unfolding piece_categories_PIECES by force
  moreover have "(\<exists>rc \<in> cells. k = ''pos_'' @ rc @ s) \<Longrightarrow>
      k \<in> (\<Union>r \<in> {0..<8}. \<Union>c \<in> {0..<8}. {''pos_'' @ getRowColName r c @ s})"
    using cells_getRowColName by fastforce
  ultimately show "k \<in> dom (map_of (counts constructor))"
    unfolding constructor_def constructor_dom_step using s k by blast
qed

lemma constructor_blank: "map_of (counts constructor) k = Some c \<Longrightarrow> data c = []"
proof -
  have "\<forall>k c. map_of (counts constructor) k = Some c \<longrightarrow> data c = []"
    unfolding constructor_def
    by (rule fold_blank) (simp_all add: add_suffix_counts_blank)
  then show "map_of (counts constructor) k = Some c \<Longrightarrow> data c = []" by blast
qed

lemma series_constructor: "series (counts constructor) k p = 0"
  by (auto simp: series_def entry_def constructor_blank split: option.splits)

lemma processGames_constructor:
  "\<exists>a. processGames gs constructor = Inr a \<and>
        (\<forall>k p. series (counts a) k p = sum_list (map (contrib k p) gs))"
  using processGames_effect [OF constructor_known_keys, of gs]
  by (simp add: series_constructor)

lemma counter_after_eq: "counter_after gs k p = Some (sum_list (map (contrib k p) gs))"
  using processGames_constructor [of gs] by (auto simp: counter_after_def)

lemma sum_list_indicator:
  "distinct ys \<Longrightarrow> sum_list (map (\<lambda>y. if x = y then 1 else 0) ys) = (if x \<in> set ys then 1 else (0::nat))"
  by (induction ys) auto

lemma sum_count_list:
  "distinct ys \<Longrightarrow> sum_list (map (count_list xs) ys) = length (filter (\<lambda>x. x \<in> set ys) xs)"
proof (induction xs)
  case Nil
  then show ?case by simp
next
  case (Cons x xs)
  have "sum_list (map (count_list (x # xs)) ys) =
        sum_list (map (\<lambda>y. count_list xs y + (if x = y then 1 else 0)) ys)"
    by (rule arg_cong [where f = sum_list]) (rule map_cong, auto)
  also have "\<dots> = sum_list (map (count_list xs) ys) + (if x \<in> set ys then 1 else 0)"
    by (simp only: sum_list_addf sum_list_indicator [OF Cons.prems])
  finally have e: "sum_list (map (count_list (x # xs)) ys) =
      sum_list (map (count_list xs) ys) + (if x \<in> set ys then 1 else 0)" .
  show ?case unfolding e using Cons by simp
qed

lemma eloSuffix_cases: "eloSuffix e = ''_low'' \<or> eloSuffix e = ''_mid'' \<or> eloSuffix e = ''_hi''"
  by (simp add: eloSuffix_def split: option.splits)

lemma tier_underscore: "s \<in> set tiers \<Longrightarrow> CHR ''_'' \<in> set s"
  by (auto simp: tiers_def)

lemma category_no_underscore: "v \<in> set piece_categories \<Longrightarrow> CHR ''_'' \<notin> set v"
  by (auto simp: piece_categories_def)

lemma category_not_total: "v \<in> set piece_categories \<Longrightarrow> v @ x \<noteq> ''total'' @ y"
  by (auto simp: piece_categories_def)

lemma category_not_pos: "v \<in> set piece_categories \<Longrightarrow> v @ x \<noteq> ''pos_'' @ y"
  by (auto simp: piece_categories_def)

lemma total_not_category: "''total'' @ x \<notin> set piece_categories"
  by (simp add: piece_categories_def)

lemma pos_not_category: "''pos_'' @ x \<notin> set piece_categories"
  by (simp add: piece_categories_def)

lemma tiered_not_category:
  "s \<in> set tiers \<Longrightarrow> v @ s \<notin> set piece_categories"
  using tier_underscore [of s] category_no_underscore [of "v @ s"] by auto

lemma eloSuffix_tiers: "eloSuffix e \<in> set tiers"
  by (simp add: eloSuffix_def tiers_def split: option.splits)

lemma distinct_categories: "distinct piece_categories"
  by (simp add: piece_categories_def)

lemma count_categories:
  "sum_list (map (count_list (move_keys game move)) piece_categories) =
     (if piece_category move = None then 0 else 1)"
proof -
  note facts = total_not_category [of "[]", simplified] total_not_category pos_not_category
    tiered_not_category [OF eloSuffix_tiers] piece_category_in
  show ?thesis
    unfolding sum_count_list [OF distinct_categories]
    by (cases "piece_category move"; cases "mover_elo game move")
       (simp_all add: move_keys_def Let_def facts del: append.simps)
qed


lemma distinct_tier_totals: "distinct (map (\<lambda>s. ''total'' @ s) tiers)"
  by (simp add: tiers_def)

lemma total_not_tiered: "''total'' \<notin> set (map (\<lambda>s. ''total'' @ s) tiers)"
  by (simp add: tiers_def)

lemma pos_not_tiered: "''pos_'' @ x \<notin> set (map (\<lambda>s. ''total'' @ s) tiers)"
  by (simp add: tiers_def)

lemma category_not_tiered:
  "v \<in> set piece_categories \<Longrightarrow> v @ x \<notin> set (map (\<lambda>s. ''total'' @ s) tiers)"
  using category_not_total [of v x] by auto

lemma count_tiers:
  "sum_list (map (\<lambda>s. count_list (move_keys game move) (''total'' @ s)) tiers) =
     (if mover_elo game move = None then 0 else 1)"
proof -
  have "sum_list (map (\<lambda>s. count_list (move_keys game move) (''total'' @ s)) tiers) =
        sum_list (map (count_list (move_keys game move)) (map (\<lambda>s. ''total'' @ s) tiers))"
    by (simp add: comp_def)
  also have "\<dots> = length (filter (\<lambda>k. k \<in> set (map (\<lambda>s. ''total'' @ s) tiers))
                          (move_keys game move))"
    by (rule sum_count_list [OF distinct_tier_totals])
  also have "\<dots> = (if mover_elo game move = None then 0 else 1)"
  proof -
    have t: "''total'' @ eloSuffix e \<in> set (map (\<lambda>s. ''total'' @ s) tiers)" for e
      using eloSuffix_tiers [of e] by (simp del: append.simps)
    have u: "piece_category move = Some v \<Longrightarrow> v \<notin> set (map (\<lambda>s. ''total'' @ s) tiers)" for v
      using category_not_tiered [OF piece_category_in, of move v "[]"] by simp
    note facts = total_not_tiered pos_not_tiered t u
      category_not_tiered [OF piece_category_in]
    show ?thesis
      by (cases "piece_category move"; cases "mover_elo game move")
         (simp_all add: move_keys_def Let_def facts del: append.simps set_map)
  qed
  finally show ?thesis .
qed

lemma count_total: "count_list (move_keys game move) ''total'' = 1"
proof -
  have a: "eloSuffix e \<noteq> []" for e
    using eloSuffix_cases [of e] by auto
  have b: "''pos_'' @ x \<noteq> ''total''" for x by simp
  have c: "piece_category move = Some v \<Longrightarrow> v @ x \<noteq> ''total''" for v x
    using category_not_total [OF piece_category_in, of move v x "[]"] by simp
  note facts = a b c c [of _ "[]", simplified]
  show ?thesis
    by (cases "piece_category move"; cases "mover_elo game move")
       (simp_all add: move_keys_def Let_def facts del: append.simps)
qed

lemma sum_list_swap:
  "sum_list (map (\<lambda>v. sum_list (map (f v) gs)) vs) =
   sum_list (map (\<lambda>g. sum_list (map (\<lambda>v. f v g) vs)) gs)"
  for f :: "'a \<Rightarrow> 'b \<Rightarrow> 'c::comm_monoid_add"
  by (induction vs) (simp_all add: sum_list_addf)

lemma sum_list_le_eq:
  fixes f g :: "'a \<Rightarrow> nat"
  assumes "\<And>x. x \<in> set xs \<Longrightarrow> f x \<le> g x"
  shows "sum_list (map f xs) \<le> sum_list (map g xs) \<and>
         (sum_list (map g xs) = sum_list (map f xs) \<longleftrightarrow> (\<forall>x \<in> set xs. f x = g x))"
  using assms
proof (induction xs)
  case Nil
  then show ?case by simp
next
  case (Cons x xs)
  then have "f x \<le> g x" and "sum_list (map f xs) \<le> sum_list (map g xs)"
    and "(sum_list (map g xs) = sum_list (map f xs)) = (\<forall>x \<in> set xs. f x = g x)"
    by auto
  then show ?case by auto
qed

lemma contrib_total: "contrib ''total'' p g = (if p < length (moves g) then 1 else 0)"
  by (simp add: contrib_def count_total)

lemma contrib_categories:
  "sum_list (map (\<lambda>v. contrib v p g) piece_categories) =
     (if p < length (moves g) \<and> piece_category (moves g ! p) \<noteq> None then 1 else 0)"
proof (cases "p < length (moves g)")
  case True
  then have "sum_list (map (\<lambda>v. contrib v p g) piece_categories) =
      sum_list (map (count_list (move_keys g (moves g ! p))) piece_categories)"
    by (simp add: contrib_def)
  also note count_categories
  finally show ?thesis using True by simp
next
  case False
  then show ?thesis by (simp add: contrib_def)
qed

lemma contrib_tiers:
  "sum_list (map (\<lambda>s. contrib (''total'' @ s) p g) tiers) =
     (if p < length (moves g) \<and> mover_elo g (moves g ! p) \<noteq> None then 1 else 0)"
proof (cases "p < length (moves g)")
  case True
  then have "sum_list (map (\<lambda>s. contrib (''total'' @ s) p g) tiers) =
      sum_list (map (\<lambda>s. count_list (move_keys g (moves g ! p)) (''total'' @ s)) tiers)"
    by (simp add: contrib_def)
  also note count_tiers
  finally show ?thesis using True by simp
next
  case False
  then show ?thesis by (simp add: contrib_def)
qed

lemmas eval_move =
  contrib_def move_keys_def mover_elo_def eloSuffix_def getMoveRC_def skip_annotations.simps
  substr_def Let_def piece_category_def PIECES_def example_game_def

lemma count_tier_total:
  assumes "s \<in> set tiers"
  shows "count_list (move_keys game move) (''total'' @ s) =
     (if mover_elo game move \<noteq> None \<and> s = eloSuffix (mover_elo game move) then 1 else 0)"
proof -
  have s: "s \<noteq> []" using assms by (auto simp: tiers_def)
  have c: "piece_category move = Some v \<Longrightarrow> v @ x \<noteq> ''total'' @ y" for v x y
    by (rule category_not_total [OF piece_category_in])
  have c': "piece_category move = Some v \<Longrightarrow> v \<noteq> ''total'' @ y" for v y
    using c [of v "[]"] by simp
  have p: "''pos_'' @ x \<noteq> ''total'' @ y" for x y by simp
  have p': "''pos_'' @ x \<noteq> ''total''" for x by simp
  note facts = s c c' p p'
  show ?thesis
    by (cases "piece_category move"; cases "mover_elo game move")
       (auto simp add: move_keys_def Let_def facts simp del: append.simps)
qed

lemma count_tier_pos:
  assumes "s \<in> set tiers" and "d = (case getMoveRC move of None \<Rightarrow> ''castle'' | Some rc \<Rightarrow> rc)"
  shows "count_list (move_keys game move) (''pos_'' @ d @ s) =
     (if mover_elo game move \<noteq> None \<and> s = eloSuffix (mover_elo game move) then 1 else 0)"
proof -
  have s: "s \<noteq> []" using assms by (auto simp: tiers_def)
  have c: "piece_category move = Some v \<Longrightarrow> v @ x \<noteq> ''pos_'' @ d @ s" for v x
    by (rule category_not_pos [OF piece_category_in])
  have c': "piece_category move = Some v \<Longrightarrow> v \<noteq> ''pos_'' @ d @ s" for v
    using c [of v "[]"] by simp
  have t: "''total'' @ x \<noteq> ''pos_'' @ y" for x y by simp
  have t': "''total'' \<noteq> ''pos_'' @ y" for y by simp
  note facts = s c c' t t'
  show ?thesis
    unfolding move_keys_def Let_def assms(2) [symmetric]
    by (cases "piece_category move"; cases "mover_elo game move")
       (auto simp add: facts simp del: append.simps)
qed

lemma count_tier_piece:
  assumes "s \<in> set tiers" and "piece_category move = Some v"
  shows "count_list (move_keys game move) (v @ s) =
     (if mover_elo game move \<noteq> None \<and> s = eloSuffix (mover_elo game move) then 1 else 0)"
proof -
  have s: "s \<noteq> []" using assms by (auto simp: tiers_def)
  have v: "v \<in> set piece_categories" using assms(2) by (rule piece_category_in)
  have t: "''total'' @ x \<noteq> v @ s" for x
    using category_not_total [OF v, of s x] by metis
  have t': "''total'' \<noteq> v @ s"
    using t [of "[]"] by simp
  have p: "''pos_'' @ x \<noteq> v @ s" for x
    using category_not_pos [OF v, of s x] by metis
  note facts = s t t' p
  show ?thesis
    by (cases "mover_elo game move")
       (auto simp add: move_keys_def Let_def assms(2) facts simp del: append.simps)
qed

lemma processMove_effect:
  assumes "known_keys \<subseteq> dom (map_of t)"
  shows "\<exists>t'. processMove game i t = Inr t' \<and>
           (\<forall>k p. series t' k p
              = series t k p + (if p = i then count_list (move_keys game (moves game ! i)) k else 0))"
proof -
  have "set (move_keys game (moves game ! i)) \<subseteq> dom (map_of t)"
    using move_keys_known assms by blast
  from count_all_ok [OF this] obtain t'
    where t': "count_all (move_keys game (moves game ! i)) i t = Inr t'" by blast
  from count_all_effect [OF t'] t' show ?thesis
    by (auto simp: processMove_count_all)
qed

section \<open>Claims about the aggregator\<close>

text \<open>
  C1. The claim: every move increments the untiered counter \<open>pos_\<close> + destination at its ply,
  also a move whose mover's rating is unknown. In \<open>processGame\<close> that increment sits inside
  the test \<^verbatim>\<open>!Number.isNaN(elo)\<close>, next to the tiered ones. The source evaluated on a game of
  one move \<^verbatim>\<open>W1.e4\<close> with both ratings unknown: the destination resolves to \<open>e4\<close>, the
  counters \<open>total\<close> and \<open>pawn\<close> are 1 at ply 0, and \<open>pos_e4\<close> stays 0.
\<close>

theorem unknown_rating_skips_destination:
  "mover_elo (example_game None None [''W1.e4'']) ''W1.e4'' = None \<and>
   getMoveRC ''W1.e4'' = Some ''e4'' \<and>
   counter_after [example_game None None [''W1.e4'']] ''pos_e4'' 0 = Some 0 \<and>
   counter_after [example_game None None [''W1.e4'']] ''total'' 0 = Some 1 \<and>
   counter_after [example_game None None [''W1.e4'']] ''pawn'' 0 = Some 1"
  by (simp add: counter_after_eq eval_move)

text \<open>
  C5. After a fresh aggregator has processed any list of games, the processing has not
  thrown and, at every ply \<open>p\<close>, the entry of \<open>total\<close> is at least the sum of the entries of
  the seven piece-category counters, with equality exactly when every game that has a move
  at ply \<open>p\<close> has a classifiable one there. Entries are those of the stored series, 0 beyond
  its end.
\<close>

theorem total_bounds_piece_categories:
  "\<exists>a. processGames gs constructor = Inr a \<and>
        sum_list (map (\<lambda>v. series (counts a) v p) piece_categories)
          \<le> series (counts a) ''total'' p \<and>
        (series (counts a) ''total'' p
           = sum_list (map (\<lambda>v. series (counts a) v p) piece_categories)
         \<longleftrightarrow> (\<forall>g \<in> set gs. p < length (moves g) \<longrightarrow> piece_category (moves g ! p) \<noteq> None))"
proof -
  from processGames_constructor [of gs] obtain a
    where a: "processGames gs constructor = Inr a"
      and s: "\<And>k p. series (counts a) k p = sum_list (map (contrib k p) gs)"
    by blast
  let ?f = "\<lambda>g. sum_list (map (\<lambda>v. contrib v p g) piece_categories)"
  let ?g = "contrib ''total'' p"
  have pieces: "sum_list (map (\<lambda>v. series (counts a) v p) piece_categories) = sum_list (map ?f gs)"
    unfolding s by (rule sum_list_swap)
  have le: "?f g \<le> ?g g" for g
    unfolding contrib_categories contrib_total by simp
  have eq: "(?f g = ?g g) = (p < length (moves g) \<longrightarrow> piece_category (moves g ! p) \<noteq> None)" for g
    unfolding contrib_categories contrib_total by simp
  from sum_list_le_eq [of gs ?f ?g] le
  have "sum_list (map ?f gs) \<le> sum_list (map ?g gs)"
    and "(sum_list (map ?g gs) = sum_list (map ?f gs)) = (\<forall>x \<in> set gs. ?f x = ?g x)"
    by simp_all
  then show ?thesis
    unfolding eq using a pieces s [of "''total''" p] by simp
qed

theorem total_bounds_piece_categories_witness:
  "1 < length (moves (example_game None (Some 2000) [''W1.e4'', ''B1.e5''])) \<and>
   piece_category (moves (example_game None (Some 2000) [''W1.e4'', ''B1.e5'']) ! 1)
     = Some ''pawn'' \<and>
   (\<exists>a. processGames [example_game None (Some 2000) [''W1.e4'', ''B1.e5'']] constructor = Inr a \<and>
        series (counts a) ''total'' 1
          = sum_list (map (\<lambda>v. series (counts a) v 1) piece_categories))"
  using total_bounds_piece_categories [of "[example_game None (Some 2000) [''W1.e4'', ''B1.e5'']]" 1]
  by (auto simp: example_game_def piece_category_def PIECES_def)

text \<open>
  C6. After a fresh aggregator has processed any list of games, at every ply the entries of
  \<open>total_low\<close>, \<open>total_mid\<close> and \<open>total_hi\<close> together do not exceed the entry of \<open>total\<close>.
\<close>

theorem tiered_totals_le_total:
  "\<exists>a. processGames gs constructor = Inr a \<and>
        series (counts a) ''total_low'' p + series (counts a) ''total_mid'' p
          + series (counts a) ''total_hi'' p \<le> series (counts a) ''total'' p"
proof -
  from processGames_constructor [of gs] obtain a
    where a: "processGames gs constructor = Inr a"
      and s: "\<And>k p. series (counts a) k p = sum_list (map (contrib k p) gs)"
    by blast
  let ?f = "\<lambda>g. sum_list (map (\<lambda>s. contrib (''total'' @ s) p g) tiers)"
  have "series (counts a) ''total_low'' p + series (counts a) ''total_mid'' p
          + series (counts a) ''total_hi'' p
        = sum_list (map (\<lambda>s. series (counts a) (''total'' @ s) p) tiers)"
    by (simp add: tiers_def)
  also have "\<dots> = sum_list (map ?f gs)"
    unfolding s by (rule sum_list_swap)
  also have "\<dots> \<le> sum_list (map (contrib ''total'' p) gs)"
    by (rule sum_list_mono) (simp add: contrib_tiers contrib_total del: append.simps)
  finally show ?thesis using a s [of "''total''" p] by auto
qed

text \<open>
  C7. The tier of the tiered increments of a move comes from the rating of the color that
  made it. For a move token that starts with \<open>W\<close> or \<open>B\<close>, processed on a table that has
  all counters: the three tiered counters of the move (\<open>total\<close>, \<open>pos_\<close> + destination, and
  the piece category when there is one, each followed by a tier) are incremented at the
  move's ply exactly for the tier of the white rating (token \<open>W\<dots>\<close>) or of the black rating
  (token \<open>B\<dots>\<close>), and for no tier when that rating is unknown; and the rating of the other
  color has no influence on the outcome at all.
\<close>

theorem tier_from_mover_rating:
  assumes "known_keys \<subseteq> dom (map_of t)"
    and "moves game ! i = c # rest"
    and "c = CHR ''W'' \<or> c = CHR ''B''"
  shows "\<exists>t'. processMove game i t = Inr t' \<and>
     (\<forall>s \<in> set tiers. \<forall>p.
        series t' (''total'' @ s) p = series t (''total'' @ s) p +
          (if p = i \<and> (if c = CHR ''W'' then welo game else belo game) \<noteq> None \<and>
              s = eloSuffix (if c = CHR ''W'' then welo game else belo game) then 1 else 0)) \<and>
     (\<forall>s \<in> set tiers. \<forall>p.
        series t' (''pos_'' @ (case getMoveRC (moves game ! i) of None \<Rightarrow> ''castle'' | Some rc \<Rightarrow> rc) @ s) p
          = series t (''pos_'' @ (case getMoveRC (moves game ! i) of None \<Rightarrow> ''castle'' | Some rc \<Rightarrow> rc) @ s) p +
          (if p = i \<and> (if c = CHR ''W'' then welo game else belo game) \<noteq> None \<and>
              s = eloSuffix (if c = CHR ''W'' then welo game else belo game) then 1 else 0)) \<and>
     (\<forall>s \<in> set tiers. \<forall>p. \<forall>v. piece_category (moves game ! i) = Some v \<longrightarrow>
        series t' (v @ s) p = series t (v @ s) p +
          (if p = i \<and> (if c = CHR ''W'' then welo game else belo game) \<noteq> None \<and>
              s = eloSuffix (if c = CHR ''W'' then welo game else belo game) then 1 else 0)) \<and>
     (c = CHR ''W'' \<longrightarrow> (\<forall>b. processMove (game\<lparr>belo := b\<rparr>) i t = processMove game i t)) \<and>
     (c = CHR ''B'' \<longrightarrow> (\<forall>w. processMove (game\<lparr>welo := w\<rparr>) i t = processMove game i t))"
proof -
  from processMove_effect [OF assms(1), of game i] obtain t'
    where t': "processMove game i t = Inr t'"
      and s: "\<And>k p. series t' k p
              = series t k p + (if p = i then count_list (move_keys game (moves game ! i)) k else 0)"
    by blast
  have e: "mover_elo game (moves game ! i) = (if c = CHR ''W'' then welo game else belo game)"
    using assms(2,3) by (auto simp: mover_elo_def)
  have w: "c = CHR ''W'' \<Longrightarrow> processMove (game\<lparr>belo := b\<rparr>) i t = processMove game i t" for b
    using assms(2) by (simp add: processMove_def mover_elo_def)
  have b: "c = CHR ''B'' \<Longrightarrow> processMove (game\<lparr>welo := w\<rparr>) i t = processMove game i t" for w
    using assms(2) by (simp add: processMove_def mover_elo_def)
  show ?thesis
    using t' w b
    by (auto simp add: s count_tier_total count_tier_pos count_tier_piece e [symmetric]
          simp del: append.simps)
qed

theorem tier_from_mover_rating_witness:
  "known_keys \<subseteq> dom (map_of (counts constructor)) \<and>
   moves (example_game (Some 1200) (Some 2000) [''W1.e4'', ''B1.e5'']) ! 1 = CHR ''B'' # ''1.e5'' \<and>
   (\<exists>t'. processMove (example_game (Some 1200) (Some 2000) [''W1.e4'', ''B1.e5'']) 1
            (counts constructor) = Inr t' \<and>
         series t' ''total_hi'' 1 = 1 \<and> series t' ''total_low'' 1 = 0 \<and>
         series t' ''total_mid'' 1 = 0)"
proof -
  let ?g = "example_game (Some 1200) (Some 2000) [''W1.e4'', ''B1.e5'']"
  have m: "moves ?g ! 1 = CHR ''B'' # ''1.e5''" by (simp add: example_game_def)
  from tier_from_mover_rating [OF constructor_known_keys m]
  obtain t' where 1: "processMove ?g 1 (counts constructor) = Inr t'"
    and 2: "\<forall>s \<in> set tiers. \<forall>p.
        series t' (''total'' @ s) p = series (counts constructor) (''total'' @ s) p +
          (if p = 1 \<and> belo ?g \<noteq> None \<and> s = eloSuffix (belo ?g) then 1 else 0)"
    by auto
  from 2 have "series t' ''total_hi'' 1 = 1 \<and> series t' ''total_low'' 1 = 0 \<and>
         series t' ''total_mid'' 1 = 0"
    by (simp add: tiers_def series_constructor example_game_def eloSuffix_def)
  with 1 m constructor_known_keys show ?thesis by blast
qed

text \<open>
  C10. As stated, for any castling token of a game whose white rating is 1500, the claim
  fails: the tier is that of the mover, so Black's castling in a game with white rating 1500
  and black rating 2000 increments \<open>pos_castle\<close> and \<open>pos_castle_hi\<close> and leaves
  \<open>pos_castle_mid\<close> at 0.
\<close>

theorem black_castling_counterexample:
  "welo (example_game (Some 1500) (Some 2000) [''W1.e4'', ''B1.O-O'']) = Some 1500 \<and>
   piece_category (moves (example_game (Some 1500) (Some 2000) [''W1.e4'', ''B1.O-O'']) ! 1)
     = Some ''castling'' \<and>
   counter_after [example_game (Some 1500) (Some 2000) [''W1.e4'', ''B1.O-O'']] ''pos_castle'' 1 = Some 1 \<and>
   counter_after [example_game (Some 1500) (Some 2000) [''W1.e4'', ''B1.O-O'']] ''pos_castle_mid'' 1 = Some 0 \<and>
   counter_after [example_game (Some 1500) (Some 2000) [''W1.e4'', ''B1.O-O'']] ''pos_castle_hi'' 1 = Some 1"
  by (simp add: counter_after_eq eval_move)

text \<open>
  C10, amended. When White's rating is 1500 and the token is White's (it starts with \<open>W\<close>),
  classifies as castling and resolves no destination (as \<open>O-O\<close> and \<open>O-O-O\<close> do), then
  \<open>pos_castle\<close> and \<open>pos_castle_mid\<close> are incremented by 1 at the move's ply and no counter
  of pawn, knight, rook, bishop, queen or king, in any tier, changes; the category counters
  \<open>castling\<close> and \<open>castling_mid\<close> are incremented by 1.
\<close>

theorem white_castling_counters:
  assumes "known_keys \<subseteq> dom (map_of t)"
    and "moves game ! i = CHR ''W'' # rest"
    and "welo game = Some 1500"
    and "piece_category (moves game ! i) = Some ''castling''"
    and "getMoveRC (moves game ! i) = None"
  shows "\<exists>t'. processMove game i t = Inr t' \<and>
     (\<forall>p. series t' ''pos_castle'' p = series t ''pos_castle'' p + (if p = i then 1 else 0)) \<and>
     (\<forall>p. series t' ''pos_castle_mid'' p
             = series t ''pos_castle_mid'' p + (if p = i then 1 else 0)) \<and>
     (\<forall>v \<in> set [''pawn'', ''knight'', ''rook'', ''bishop'', ''queen'', ''king''].
        \<forall>s \<in> set ELO_SUFFIXES. \<forall>p. series t' (v @ s) p = series t (v @ s) p) \<and>
     (\<forall>p. series t' ''castling'' p = series t ''castling'' p + (if p = i then 1 else 0)) \<and>
     (\<forall>p. series t' ''castling_mid'' p
             = series t ''castling_mid'' p + (if p = i then 1 else 0))"
proof -
  from processMove_effect [OF assms(1), of game i] obtain t'
    where t': "processMove game i t = Inr t'"
      and s: "\<And>k p. series t' k p
              = series t k p + (if p = i then count_list (move_keys game (moves game ! i)) k else 0)"
    by blast
  have k: "move_keys game (moves game ! i) =
      [''total'', ''total_mid'', ''pos_castle'', ''pos_castle_mid'', ''castling'', ''castling_mid'']"
    using assms(2-5) by (simp add: move_keys_def mover_elo_def eloSuffix_def Let_def)
  show ?thesis
    using t' by (simp add: s k ELO_SUFFIXES_def)
qed

theorem white_castling_counters_witness:
  "known_keys \<subseteq> dom (map_of (counts constructor)) \<and>
   moves (example_game (Some 1500) None [''W1.e4'', ''B1.e5'', ''W2.O-O'']) ! 2 = CHR ''W'' # ''2.O-O'' \<and>
   welo (example_game (Some 1500) None [''W1.e4'', ''B1.e5'', ''W2.O-O'']) = Some 1500 \<and>
   piece_category ''W2.O-O'' = Some ''castling'' \<and> getMoveRC ''W2.O-O'' = None \<and>
   (\<exists>t'. processMove (example_game (Some 1500) None [''W1.e4'', ''B1.e5'', ''W2.O-O'']) 2
            (counts constructor) = Inr t' \<and>
         series t' ''pos_castle'' 2 = 1 \<and> series t' ''pos_castle_mid'' 2 = 1 \<and>
         series t' ''king'' 2 = 0 \<and> series t' ''king_mid'' 2 = 0 \<and> series t' ''castling'' 2 = 1)"
proof -
  let ?g = "example_game (Some 1500) None [''W1.e4'', ''B1.e5'', ''W2.O-O'']"
  have m: "moves ?g ! 2 = CHR ''W'' # ''2.O-O''" by (simp add: example_game_def)
  have w: "welo ?g = Some 1500" by (simp add: example_game_def)
  have c: "piece_category ''W2.O-O'' = Some ''castling''"
    by (simp add: piece_category_def PIECES_def)
  have d: "getMoveRC ''W2.O-O'' = None"
    by (simp add: getMoveRC_def skip_annotations.simps substr_def Let_def)
  have c': "piece_category (moves ?g ! 2) = Some ''castling''" using c m by simp
  have d': "getMoveRC (moves ?g ! 2) = None" using d m by simp
  from white_castling_counters [OF constructor_known_keys m w c' d']
  obtain t' where 1: "processMove ?g 2 (counts constructor) = Inr t'"
    and 2: "\<forall>p. series t' ''pos_castle'' p = series (counts constructor) ''pos_castle'' p + (if p = 2 then 1 else 0)"
    and 3: "\<forall>p. series t' ''pos_castle_mid'' p = series (counts constructor) ''pos_castle_mid'' p + (if p = 2 then 1 else 0)"
    and 4: "\<forall>v \<in> set [''pawn'', ''knight'', ''rook'', ''bishop'', ''queen'', ''king''].
        \<forall>s \<in> set ELO_SUFFIXES. \<forall>p. series t' (v @ s) p = series (counts constructor) (v @ s) p"
    and 5: "\<forall>p. series t' ''castling'' p = series (counts constructor) ''castling'' p + (if p = 2 then 1 else 0)"
    by blast
  from 4 have "series t' (''king'' @ '''') 2 = 0" "series t' (''king'' @ ''_mid'') 2 = 0"
    by (simp_all add: ELO_SUFFIXES_def series_constructor)
  with 2 3 5 have "series t' ''pos_castle'' 2 = 1 \<and> series t' ''pos_castle_mid'' 2 = 1 \<and>
         series t' ''king'' 2 = 0 \<and> series t' ''king_mid'' 2 = 0 \<and> series t' ''castling'' 2 = 1"
    by (simp add: series_constructor)
  with 1 m w c d constructor_known_keys show ?thesis by blast
qed

section \<open>Claims about the rated-format reader\<close>

lemmas eval_reader =
  forEachLichessGame_def on_line_def trim_def matchAll_def exec_def match_at_def Let_def
  lichessMovesParse_def MOVE_PATTERN_def DATE_PATTERN_def ELO_PATTERN_def RESULT_PATTERN_def
  MOVE_1_PATTERN_def parseInt_def the_int_def number_string_def decimal_string.simps
  rated_metadata_def QUANTITY_def

lemma rated_annotated_games:
  "forEachLichessGame
     [rated_metadata @ [''1. e4 {comment} 1... e5 {comment} 2. Nf3 {comment} 2... Nc6 {comment}'']]
     QUANTITY =
   [\<lparr>index = Some 0, date = (2021, 9, 1), result = ''1-0'', welo = Some 1200, belo = Some 2000,
     len = Some 4, moves = [''W1.e4'', ''B1.e5'', ''W2.Nf3'', ''B2.Nc6''], origin = ''lichess''\<rparr>]"
  by (simp add: eval_reader)

text \<open>
  C2. As stated, the scenario fails. \<open>MOVE_PATTERN\<close> recognises a move only when it is
  numbered and followed by a space and an opening brace, so in the line
  \<^verbatim>\<open>1. e4 {comment} 1... e5 2. Nf3 Nc6\<close> only the first move is found; with fewer than two
  moves the reader hands no game to the callback. The input arrives in one chunk.
\<close>

theorem rated_scenario_counterexample:
  "lichessMovesParse ''1. e4 {comment} 1... e5 2. Nf3 Nc6'' = [''W1.e4''] \<and>
   forEachLichessGame [rated_metadata @ [''1. e4 {comment} 1... e5 2. Nf3 Nc6'']] QUANTITY = []"
  by (simp add: eval_reader)

text \<open>
  C2, amended. When every move of the line is numbered and followed by a brace comment
  (\<^verbatim>\<open>1. e4 {comment} 1... e5 {comment} 2. Nf3 {comment} 2... Nc6 {comment}\<close>, the form of the
  rated data set), the reader emits exactly one game record, with 4 moves: ply 0 is White's
  (rating 1200, tier low), ply 1 is Black's (rating 2000, tier high), ply 2 is a knight move
  with destination f3 and ply 3 a knight move with destination c6.
\<close>

theorem rated_scenario_annotated:
  "forEachLichessGame
     [rated_metadata @ [''1. e4 {comment} 1... e5 {comment} 2. Nf3 {comment} 2... Nc6 {comment}'']]
     QUANTITY =
   [\<lparr>index = Some 0, date = (2021, 9, 1), result = ''1-0'', welo = Some 1200, belo = Some 2000,
     len = Some 4, moves = [''W1.e4'', ''B1.e5'', ''W2.Nf3'', ''B2.Nc6''], origin = ''lichess''\<rparr>] \<and>
   mover_elo \<lparr>index = Some 0, date = (2021, 9, 1), result = ''1-0'', welo = Some 1200,
     belo = Some 2000, len = Some 4, moves = [''W1.e4'', ''B1.e5'', ''W2.Nf3'', ''B2.Nc6''],
     origin = ''lichess''\<rparr> ''W1.e4'' = Some 1200 \<and>
   eloSuffix (Some 1200) = ''_low'' \<and>
   mover_elo \<lparr>index = Some 0, date = (2021, 9, 1), result = ''1-0'', welo = Some 1200,
     belo = Some 2000, len = Some 4, moves = [''W1.e4'', ''B1.e5'', ''W2.Nf3'', ''B2.Nc6''],
     origin = ''lichess''\<rparr> ''B1.e5'' = Some 2000 \<and>
   eloSuffix (Some 2000) = ''_hi'' \<and>
   piece_category ''W2.Nf3'' = Some ''knight'' \<and> getMoveRC ''W2.Nf3'' = Some ''f3'' \<and>
   piece_category ''B2.Nc6'' = Some ''knight'' \<and> getMoveRC ''B2.Nc6'' = Some ''c6''"
  by (simp add: rated_annotated_games eval_move)

text \<open>
  The cap on the number of games. The reader closes when the index after an emitted game
  reaches the cap; it then reads no further chunk, and the lines that the current chunk
  still holds are handled as before. With a cap of 1, two games in the first chunk and one
  in the second, the callback gets the two games of the first chunk.
\<close>

lemma cap_reached_within_chunk:
  "map moves (forEachLichessGame
     [rated_metadata @ [''1. e4 {c} 1... e5 {c}''] @ rated_metadata @ [''1. d4 {c} 1... d5 {c}''],
      rated_metadata @ [''1. c4 {c} 1... c5 {c}'']] 1) =
   [[''W1.e4'', ''B1.e5''], [''W1.d4'', ''B1.d5'']]"
  by (simp add: eval_reader)

section \<open>Properties of the derived series\<close>






















lemma rowColString_cells: "i < 64 \<Longrightarrow> rowColString i \<in> cells"
proof -
  assume "i < 64"
  then have "i div 8 < 8" "i mod 8 < 8" by auto
  then show ?thesis
    by (auto simp: rowColString_def cells_def less_eq_char_def)
qed


lemma rowColString_inj:
  assumes "i < 64" and "j < 64" and "rowColString i = rowColString j"
  shows "i = j"
proof -
  have b: "97 + i div 8 < 256" "97 + j div 8 < 256" "49 + i mod 8 < 256" "49 + j mod 8 < 256"
    using assms(1,2) by auto
  from assms(3) have "char_of (97 + i div 8) = (char_of (97 + j div 8) :: char)"
    and "char_of (49 + i mod 8) = (char_of (49 + j mod 8) :: char)"
    by (simp_all add: rowColString_def)
  then have "(of_char (char_of (97 + i div 8) :: char) :: nat) = of_char (char_of (97 + j div 8) :: char)"
    and "(of_char (char_of (49 + i mod 8) :: char) :: nat) = of_char (char_of (49 + j mod 8) :: char)"
    by simp_all
  then have "(97 + i div 8) mod 256 = (97 + j div 8) mod 256"
    and "(49 + i mod 8) mod 256 = (49 + j mod 8) mod 256"
    by (simp_all only: of_char_of)
  with b have "i div 8 = j div 8" "i mod 8 = j mod 8" by simp_all
  then show ?thesis by (metis div_mult_mod_eq)
qed



















lemma opening_cells:
  "rowColString 27 = ''d4''" "rowColString 35 = ''e4''" "rowColString 36 = ''e5''"
  by (simp_all add: rowColString_def char_of_def bit_Suc_0_iff)









lemma count_all_stored:
  "count_all ks i t = Inr t' \<Longrightarrow>
     map_of t' k = map_option ((\<lambda>c. count c i) ^^ count_list ks k) (map_of t k)"
proof (induction ks arbitrary: t)
  case Nil
  then show ?case by (simp add: option.map_ident)
next
  case (Cons k0 ks)
  then obtain t1 where 1: "count_at k0 i t = Inr t1" and 2: "count_all ks i t1 = Inr t'"
    by (auto simp: and_then_eq_Inr)
  from 1 have s: "map_of t1 k = (if k = k0 then map_option (\<lambda>c. count c i) (map_of t k) else map_of t k)"
    by (auto simp: count_at_Inr update_conv')
  have w: "((\<lambda>c. count c i) ^^ n) (count x i) = count (((\<lambda>c. count c i) ^^ n) x) i" for n x
    using funpow_swap1 [of "\<lambda>c. count c i" n x] by simp
  show ?case
    unfolding Cons.IH [OF 2] s
    by (simp add: option.map_comp comp_def w)
qed

lemma opening_increments:
  assumes "i < 64"
  shows "count_list (move_keys opening_game ''W1.e4'') (''pos_'' @ rowColString i) = (if i = 35 then 1 else 0)"
    and "count_list (move_keys opening_game ''B1.e5'') (''pos_'' @ rowColString i) = (if i = 36 then 1 else 0)"
    and "count_list (move_keys opening_game ''W2.d4'') (''pos_'' @ rowColString i) = (if i = 27 then 1 else 0)"
proof -
  obtain a b where ab: "rowColString i = [a, b]" by (simp add: rowColString_def)
  have "(rowColString i = rowColString j) = (i = j)" if "j < 64" for j
    using rowColString_inj [OF assms that] by auto
  from this [of 35] this [of 36] this [of 27]
  have e: "(i = 35) = (CHR ''e'' = a \<and> CHR ''4'' = b)" "(i = 36) = (CHR ''e'' = a \<and> CHR ''5'' = b)"
    "(i = 27) = (CHR ''d'' = a \<and> CHR ''4'' = b)"
    by (simp_all add: opening_cells ab eq_commute)
  show "count_list (move_keys opening_game ''W1.e4'') (''pos_'' @ rowColString i) = (if i = 35 then 1 else 0)"
    unfolding e by (simp add: eval_move opening_game_def ab)
  show "count_list (move_keys opening_game ''B1.e5'') (''pos_'' @ rowColString i) = (if i = 36 then 1 else 0)"
    unfolding e by (simp add: eval_move opening_game_def ab)
  show "count_list (move_keys opening_game ''W2.d4'') (''pos_'' @ rowColString i) = (if i = 27 then 1 else 0)"
    unfolding e by (simp add: eval_move opening_game_def ab)
qed

lemma opening_blob_written:
  assumes "i < 64"
  shows "map_option (map int) (stored_after [opening_game] (''pos_'' @ rowColString i))
           = Some (opening_series i)"
proof -
  let ?k = "''pos_'' @ rowColString i"
  let ?t0 = "counts constructor"
  from processGames_constructor [of "[opening_game]"]
  obtain a where a: "processGames [opening_game] constructor = Inr a" by blast
  have m: "moves opening_game = [''W1.e4'', ''B1.e5'', ''W2.d4'']"
    by (simp add: opening_game_def example_game_def)
  have u: "[0..<3] = [0, Suc 0, Suc (Suc 0)]" by (simp add: upt_rec)
  from a have "for_moves opening_game [0, Suc 0, Suc (Suc 0)] ?t0 = Inr (counts a)"
    by (auto simp: and_then_eq_Inr processGame_def m u)
  then obtain t1 t2 where
    "processMove opening_game 0 ?t0 = Inr t1" and
    "processMove opening_game (Suc 0) t1 = Inr t2" and
    "processMove opening_game (Suc (Suc 0)) t2 = Inr (counts a)"
    unfolding for_moves.simps and_then_eq_Inr by blast
  then have
    1: "count_all (move_keys opening_game ''W1.e4'') 0 ?t0 = Inr t1" and
    2: "count_all (move_keys opening_game ''B1.e5'') (Suc 0) t1 = Inr t2" and
    3: "count_all (move_keys opening_game ''W2.d4'') (Suc (Suc 0)) t2 = Inr (counts a)"
    unfolding processMove_count_all m by simp_all
  have "?k \<in> known_keys"
    using known_keys_plain(4) [OF rowColString_cells [OF assms]] .
  with constructor_known_keys obtain c0 where c0: "map_of ?t0 ?k = Some c0" by blast
  then have d0: "data c0 = []" by (rule constructor_blank)
  have "map_of (counts a) ?k =
      Some (((\<lambda>c. count c (Suc (Suc 0))) ^^ (if i = 27 then 1 else 0))
           (((\<lambda>c. count c (Suc 0)) ^^ (if i = 36 then 1 else 0))
           (((\<lambda>c. count c 0) ^^ (if i = 35 then 1 else 0)) c0)))"
    unfolding count_all_stored [OF 3] count_all_stored [OF 2] count_all_stored [OF 1]
      opening_increments [OF assms] c0 by simp
  then show ?thesis
    unfolding stored_after_def a
    by (simp add: d0 count_def opening_series_def push_zeros.simps)
qed




end
